theory Spec2Isabelle
  imports Main "HOL-Library.Sublist"
begin

section \<open>Data model of the background script\<close>

text \<open>
  The background script (src/src/background.js) keeps three pieces of module state: the array
  \<open>requestListeners\<close>, the \<open>Map\<close> \<open>records\<close> from tab identifiers to arrays of records, and the
  notifier. The host (the browser) keeps the listeners registered on its events and the reads
  of the stored options that \<open>initOnChange\<close> has started and that have not been answered yet.
  Calls to the notifier are kept as a log, oldest call first. The request controller is an
  external collaborator whose state the script never reads; it is left out of the state.
\<close>

text \<open>
  Modelled from the spec: the rule class built by \<open>createRule\<close> (RequestControl/api.js) is not
  part of the sources at hand. The script treats a rule as opaque; the spec links a record to its
  rule by the rule's uuid.
\<close>

datatype rule = Rule (uuid: string)

datatype error = TypeError | Thrown string

text \<open>
  The object literal built in \<open>requestControlListener\<close>. \<open>target\<close> is \<open>request.redirectUrl\<close>,
  which is \<open>undefined\<close> (here \<open>None\<close>) when the request was not redirected. \<open>timestamp\<close> is the
  request's \<open>timeStamp\<close>; only its equality is ever observed, so it is an integer here.
\<close>

record tab_record =
  tabId :: int
  rtype :: string
  url :: string
  target :: "string option"
  timestamp :: int
  rule :: rule

text \<open>JavaScript truthiness of a value that is \<open>undefined\<close> or a string.\<close>

definition truthy :: "string option \<Rightarrow> bool" where
  "truthy t = (case t of None \<Rightarrow> False | Some s \<Rightarrow> s \<noteq> [])"

text \<open>The \<open>details\<close> object of a \<open>webNavigation.onCommitted\<close> event.\<close>

record details =
  d_tabId :: int
  d_frameId :: int
  d_url :: string
  transitionQualifiers :: "string list"

text \<open>One entry of \<open>options.rules\<close>; \<open>body\<close> stands for the fields only \<open>createRule\<close> reads.\<close>

record rule_data =
  active :: bool
  pattern :: string
  types :: "string list option"
  body :: string

record options =
  disabled :: bool
  rules :: "rule_data list option"

text \<open>
  A listener function. Every run of the loop body of \<open>addRuleListeners\<close> builds a new closure
  over \<open>rule\<close>; the number tells the closures that get registered apart (it is the value of
  \<open>next_closure\<close> at the registration). \<open>requestControlListener\<close> is the one named function.
\<close>

datatype listener = RuleListener nat rule | RequestControlListener

type_synonym filter = "string list \<times> string list option"

type_synonym hook = "listener \<times> filter \<times> string list"

datatype notifier_call =
    EnabledState
  | DisabledState
  | Notify int rule nat
  | Clear int
  | Error "int option" string

record state =
  requestListeners :: "listener list"
  records :: "int \<rightharpoonup> tab_record list"
  notifier_log :: "notifier_call list"
  onBeforeRequest :: "hook list"
  onRemoved :: bool
  onCommitted :: bool
  onMessage :: bool
  handlerBehaviorChanged :: nat
  next_closure :: nat
  onChanged :: bool
  pending_reads :: nat

definition initial_state :: state where
  "initial_state =
     \<lparr>requestListeners = [], records = Map.empty, notifier_log = [], onBeforeRequest = [],
      onRemoved = False, onCommitted = False, onMessage = False, handlerBehaviorChanged = 0,
      next_closure = 0, onChanged = False, pending_reads = 0\<rparr>"

text \<open>
  The host's event registry: \<open>addListener\<close> with a function that is already registered does
  nothing, \<open>removeListener\<close> drops the registration of that function. (Whether the host
  takes a filter at all is the parameter \<open>accepts\<close> below.)
\<close>

definition addListener :: "hook \<Rightarrow> hook list \<Rightarrow> hook list" where
  "addListener h reg = (if fst h \<in> fst ` set reg then reg else reg @ [h])"

definition removeListener :: "listener \<Rightarrow> hook list \<Rightarrow> hook list" where
  "removeListener l reg = filter (\<lambda>h. fst h \<noteq> l) reg"

text \<open>
  Modelled from the spec: the constant \<open>ALL_URLS\<close> of RequestControl/api.js is not part of the
  sources at hand; it is the pattern that matches every URL.
\<close>

definition ALL_URLS :: string where
  "ALL_URLS = ''<all_urls>''"

definition notify :: "notifier_call \<Rightarrow> state \<Rightarrow> state" where
  "notify c st = st\<lparr>notifier_log := notifier_log st @ [c]\<rparr>"

section \<open>The per-tab record store\<close>

definition removeRecords :: "int \<Rightarrow> state \<Rightarrow> state" where
  "removeRecords tab st = st\<lparr>records := (records st)(tab := None)\<rparr>"

text \<open>
  \<open>addRecord\<close> returns the new length. An array, even an empty one, is truthy, so a new
  array is made only when the tab has no entry.
\<close>

definition addRecord :: "tab_record \<Rightarrow> state \<Rightarrow> nat \<times> state" where
  "addRecord record st =
     (let recordsForTab = (case records st (tabId record) of None \<Rightarrow> [] | Some rs \<Rightarrow> rs);
          recordsForTab' = recordsForTab @ [record]
      in (length recordsForTab',
          st\<lparr>records := (records st)(tabId record \<mapsto> recordsForTab')\<rparr>))"

section \<open>The reconciler\<close>

text \<open>
  The two \<open>while\<close> loops of \<open>resetRecords\<close>. The array \<open>tabRecords\<close> is oldest first and
  \<open>pop\<close> takes its last element. Each loop returns what is left of \<open>tabRecords\<close>, the variable
  \<open>lastRecord\<close> (\<open>None\<close> while it is \<open>undefined\<close>) and \<open>keep\<close>.
\<close>

function pass1 ::
  "string \<Rightarrow> bool \<Rightarrow> nat \<Rightarrow> tab_record list \<Rightarrow> tab_record option \<Rightarrow> tab_record list
   \<Rightarrow> tab_record list \<times> tab_record option \<times> tab_record list" where
  "pass1 durl isServerRedirect i tabRecords lastRecord keep =
     (if i < 5 \<and> tabRecords \<noteq> [] then
        (if target (last tabRecords) = Some durl \<or>
            (isServerRedirect \<and> truthy (target (last tabRecords)))
         then (butlast tabRecords, Some (last tabRecords), keep @ [last tabRecords])
         else pass1 durl isServerRedirect (i + 1) (butlast tabRecords)
                (Some (last tabRecords)) keep)
      else (tabRecords, lastRecord, keep))"
  by pat_completeness auto
termination
  by (relation "measure (\<lambda>(durl, sr, i, tabRecords, lastRecord, keep). 5 - i)") auto

text \<open>
  In the second loop \<open>lastRecord.url\<close> is read only when \<open>record.target\<close> is truthy; reading it
  while \<open>lastRecord\<close> is \<open>undefined\<close> throws a TypeError.
\<close>

function pass2 ::
  "nat \<Rightarrow> tab_record list \<Rightarrow> tab_record option \<Rightarrow> tab_record list
   \<Rightarrow> error + (tab_record list \<times> tab_record option \<times> tab_record list)" where
  "pass2 j tabRecords lastRecord keep =
     (if j < 5 \<and> tabRecords \<noteq> [] then
        (if truthy (target (last tabRecords)) then
           (case lastRecord of
              None \<Rightarrow> Inl TypeError
            | Some lr \<Rightarrow>
                if target (last tabRecords) = Some (url lr)
                then pass2 (j + 1) (butlast tabRecords) (Some (last tabRecords))
                       (last tabRecords # keep)
                else pass2 (j + 1) (butlast tabRecords) lastRecord keep)
         else pass2 (j + 1) (butlast tabRecords) lastRecord keep)
      else Inr (tabRecords, lastRecord, keep))"
  by pat_completeness auto
termination
  by (relation "measure (\<lambda>(j, tabRecords, lastRecord, keep). 5 - j)") auto

text \<open>The two loops in sequence, from \<open>keep = []\<close> and \<open>lastRecord\<close> undefined.\<close>

definition reconcile :: "string \<Rightarrow> bool \<Rightarrow> tab_record list \<Rightarrow> error + tab_record list" where
  "reconcile durl isServerRedirect tabRecords =
     (case pass1 durl isServerRedirect 0 tabRecords None [] of
        (tabRecords1, lastRecord1, keep1) \<Rightarrow>
          (case pass2 0 tabRecords1 lastRecord1 keep1 of
             Inl e \<Rightarrow> Inl e
           | Inr (tabRecords2, lastRecord2, keep2) \<Rightarrow> Inr keep2))"

definition resetRecords :: "details \<Rightarrow> state \<Rightarrow> error + state" where
  "resetRecords dt st =
     (if d_frameId dt = 0 then
        (case records st (d_tabId dt) of
           None \<Rightarrow> Inr st
         | Some tabRecords \<Rightarrow>
             (case reconcile (d_url dt) (''server_redirect'' \<in> set (transitionQualifiers dt))
                     tabRecords of
                Inl e \<Rightarrow> Inl e
              | Inr keep \<Rightarrow>
                  if keep \<noteq> [] then
                    Inr (notify (Notify (d_tabId dt) (rule (last keep)) (length keep))
                          (st\<lparr>records := (records st)(d_tabId dt \<mapsto> keep)\<rparr>))
                  else Inr (notify (Clear (d_tabId dt)) (removeRecords (d_tabId dt) st))))
      else Inr st)"

section \<open>Installing and removing the interception hooks\<close>

text \<open>
  \<open>createRule\<close> and \<open>createMatchPatterns\<close> (RequestControl/api.js) are parameters: each either
  returns its result or throws. So is the host's check in \<open>addListener\<close>: \<open>accepts\<close> tells, for a
  filter and the extra options, whether \<open>browser.webRequest.onBeforeRequest.addListener\<close> takes
  them (True) or throws. The message of \<open>notifier.error\<close> is the i18n key it is looked up by.
\<close>

type_synonym createRule_t = "rule_data \<Rightarrow> error + rule"

type_synonym createMatchPatterns_t = "string \<Rightarrow> error + string list"

type_synonym accepts_t = "filter \<Rightarrow> string list \<Rightarrow> bool"

text \<open>
  The body of the \<open>for\<close> loop of \<open>addRuleListeners\<close>, for one entry \<open>data\<close>. The calls of
  \<open>createRule\<close>, \<open>createMatchPatterns\<close> and \<open>addListener\<close> are inside the \<open>try\<close> block, in this
  order; when one throws, the rest of the block is skipped (nothing is registered, nothing is
  pushed on \<open>requestListeners\<close>) and the \<open>catch\<close> block calls \<open>notifier.error\<close>.
\<close>

definition install_rule ::
  "createRule_t \<Rightarrow> createMatchPatterns_t \<Rightarrow> accepts_t \<Rightarrow> rule_data \<Rightarrow> state \<Rightarrow> state" where
  "install_rule createRule createMatchPatterns accepts data st =
     (if \<not> active data then st
      else
        (case createRule data of
           Inl e \<Rightarrow> notify (Error None ''error_invalid_rule'') st
         | Inr rule' \<Rightarrow>
             (case createMatchPatterns (pattern data) of
                Inl e \<Rightarrow> notify (Error None ''error_invalid_rule'') st
              | Inr urls \<Rightarrow>
                  if accepts (urls, types data) [] then
                    st\<lparr>onBeforeRequest :=
                          addListener (RuleListener (next_closure st) rule', (urls, types data), [])
                            (onBeforeRequest st),
                       requestListeners :=
                          requestListeners st @ [RuleListener (next_closure st) rule'],
                       next_closure := Suc (next_closure st)\<rparr>
                  else notify (Error None ''error_invalid_rule'') st)))"

fun install_rules ::
  "createRule_t \<Rightarrow> createMatchPatterns_t \<Rightarrow> accepts_t \<Rightarrow> rule_data list \<Rightarrow> state \<Rightarrow> state"
  where
  "install_rules createRule createMatchPatterns accepts [] st = st"
| "install_rules createRule createMatchPatterns accepts (data # rest) st =
     install_rules createRule createMatchPatterns accepts rest
       (install_rule createRule createMatchPatterns accepts data st)"

text \<open>
  \<open>addRuleListeners\<close> returns (\<open>None\<close>) or throws (\<open>Some e\<close>), and leaves a state either way:
  the registration of the catch-all hook is outside every \<open>try\<close> block, so when the host
  refuses it the exception leaves the function, after the loop has run.
\<close>

definition addRuleListeners ::
  "createRule_t \<Rightarrow> createMatchPatterns_t \<Rightarrow> accepts_t \<Rightarrow> rule_data list option \<Rightarrow> state
   \<Rightarrow> error option \<times> state" where
  "addRuleListeners createRule createMatchPatterns accepts rs st =
     (case rs of
        None \<Rightarrow> (None, st)
      | Some rs' \<Rightarrow>
          (let st' = install_rules createRule createMatchPatterns accepts rs' st
           in if accepts ([ALL_URLS], None) [''blocking''] then
                (None,
                 st'\<lparr>onBeforeRequest :=
                       addListener (RequestControlListener, ([ALL_URLS], None), [''blocking''])
                         (onBeforeRequest st')\<rparr>)
              else (Some (Thrown ''addListener''), st')))"

text \<open>
  \<open>init\<close> returns or throws likewise: an exception of \<open>addRuleListeners\<close> is not caught, the
  statements after the call are skipped.
\<close>

definition init ::
  "createRule_t \<Rightarrow> createMatchPatterns_t \<Rightarrow> accepts_t \<Rightarrow> options \<Rightarrow> state
   \<Rightarrow> error option \<times> state" where
  "init createRule createMatchPatterns accepts opts st =
     (if disabled opts then
        (let st' = (notify DisabledState st)
                     \<lparr>records := Map.empty, onRemoved := False, onCommitted := False,
                      onMessage := False\<rparr>
         in (None, st'\<lparr>handlerBehaviorChanged := Suc (handlerBehaviorChanged st')\<rparr>))
      else
        (case addRuleListeners createRule createMatchPatterns accepts (rules opts)
                (notify EnabledState st) of
           (Some e, st') \<Rightarrow> (Some e, st')
         | (None, st') \<Rightarrow>
             (None,
              st'\<lparr>onRemoved := True, onCommitted := True, onMessage := True,
                  handlerBehaviorChanged := Suc (handlerBehaviorChanged st')\<rparr>)))"

text \<open>The \<open>while\<close> loop of \<open>initOnChange\<close>: pop a listener and unregister it.\<close>

function remove_request_listeners :: "state \<Rightarrow> state" where
  "remove_request_listeners st =
     (if requestListeners st \<noteq> [] then
        remove_request_listeners
          (st\<lparr>requestListeners := butlast (requestListeners st),
              onBeforeRequest := removeListener (last (requestListeners st)) (onBeforeRequest st)\<rparr>)
      else st)"
  by pat_completeness auto
termination
  by (relation "measure (\<lambda>st. length (requestListeners st))") auto

text \<open>
  \<open>initOnChange\<close> unregisters the hooks and ends with \<open>browser.storage.local.get().then(init)\<close>:
  it starts a read of the stored options and returns. \<open>init\<close> runs later, when the host answers
  the read (the event \<open>OptionsRead\<close> below); other events can be handled in between.
\<close>

definition initOnChange :: "state \<Rightarrow> state" where
  "initOnChange st =
     (let st' = remove_request_listeners st
      in st'\<lparr>onBeforeRequest := removeListener RequestControlListener (onBeforeRequest st'),
             pending_reads := Suc (pending_reads st')\<rparr>)"

text \<open>
  The start of the script: \<open>init\<close> on the stored options, from the initial module state, and
  then, unless \<open>init\<close> threw, the registration of \<open>initOnChange\<close> for changes of the options.
\<close>

definition startup ::
  "createRule_t \<Rightarrow> createMatchPatterns_t \<Rightarrow> accepts_t \<Rightarrow> options \<Rightarrow> state" where
  "startup createRule createMatchPatterns accepts opts =
     (case init createRule createMatchPatterns accepts opts initial_state of
        (Some e, st) \<Rightarrow> st
      | (None, st) \<Rightarrow> st\<lparr>onChanged := True\<rparr>)"

section \<open>The resolution callback and the events of the host\<close>

text \<open>
  The callback that \<open>requestControlListener\<close> hands to \<open>controller.resolve\<close>. The call of
  \<open>browser.tabs.update\<close> changes nothing in the script's state.
\<close>

definition onResolved :: "tab_record \<Rightarrow> bool \<Rightarrow> state \<Rightarrow> state" where
  "onResolved record updateTab st =
     (case addRecord record st of
        (tabRecordsCount, st') \<Rightarrow> notify (Notify (tabId record) (rule record) tabRecordsCount) st')"

text \<open>
  The events the host delivers once the script has started, one handler run each. A handler
  runs only while it is registered: the callback can only be reached through the catch-all
  hook. \<open>StorageChanged\<close> is a change of the stored options (\<open>initOnChange\<close> runs);
  \<open>OptionsRead opts\<close> is the answer \<open>opts\<close> to a read that \<open>initOnChange\<close> started (\<open>init\<close> runs
  on it; an exception it throws goes nowhere). The host may answer with any options and may
  deliver any other event between a change and the answer to its read.
\<close>

datatype event =
    StorageChanged
  | OptionsRead options
  | Resolved tab_record bool
  | Committed details
  | TabRemoved int

definition step ::
  "createRule_t \<Rightarrow> createMatchPatterns_t \<Rightarrow> accepts_t \<Rightarrow> state \<Rightarrow> event \<Rightarrow> state" where
  "step createRule createMatchPatterns accepts st ev =
     (case ev of
        StorageChanged \<Rightarrow> if onChanged st then initOnChange st else st
      | OptionsRead opts \<Rightarrow>
          if 0 < pending_reads st
          then snd (init createRule createMatchPatterns accepts opts
                      (st\<lparr>pending_reads := pending_reads st - 1\<rparr>))
          else st
      | Resolved record updateTab \<Rightarrow>
          if RequestControlListener \<in> fst ` set (onBeforeRequest st)
          then onResolved record updateTab st else st
      | Committed dt \<Rightarrow>
          if onCommitted st
          then (case resetRecords dt st of Inl e \<Rightarrow> st | Inr st' \<Rightarrow> st') else st
      | TabRemoved tab \<Rightarrow> if onRemoved st then removeRecords tab st else st)"

definition run ::
  "createRule_t \<Rightarrow> createMatchPatterns_t \<Rightarrow> accepts_t \<Rightarrow> options \<Rightarrow> event list \<Rightarrow> state"
  where
  "run createRule createMatchPatterns accepts opts evs =
     foldl (step createRule createMatchPatterns accepts)
       (startup createRule createMatchPatterns accepts opts) evs"

section \<open>Notions used in the statements\<close>

text \<open>The test of the first loop: the record is adopted as anchor.\<close>

definition is_anchor :: "string \<Rightarrow> bool \<Rightarrow> tab_record \<Rightarrow> bool" where
  "is_anchor durl isServerRedirect r =
     (target r = Some durl \<or> (isServerRedirect \<and> truthy (target r)))"

text \<open>The sequence the store holds for a tab, empty when the tab has no entry.\<close>

definition tab_records :: "state \<Rightarrow> int \<Rightarrow> tab_record list" where
  "tab_records st tab = (case records st tab of None \<Rightarrow> [] | Some rs \<Rightarrow> rs)"

text \<open>Examples: records of tab 1, a store that holds one sequence for tab 1, a commit in tab 1.\<close>

definition mk_record :: "string \<Rightarrow> string option \<Rightarrow> int \<Rightarrow> tab_record" where
  "mk_record u t ts =
     \<lparr>tabId = 1, rtype = ''main_frame'', url = u, target = t, timestamp = ts, rule = Rule u\<rparr>"

definition store_of :: "tab_record list \<Rightarrow> state" where
  "store_of rs = initial_state\<lparr>records := [1 \<mapsto> rs], onCommitted := True\<rparr>"

definition commit :: "string \<Rightarrow> string list \<Rightarrow> details" where
  "commit u quals = \<lparr>d_tabId = 1, d_frameId = 0, d_url = u, transitionQualifiers = quals\<rparr>"

definition ex_chain :: "tab_record list" where
  "ex_chain = [mk_record ''A'' (Some ''B'') 10, mk_record ''B'' (Some ''C'') 20]"

text \<open>
  Six records left by an earlier page: a redirect from X1 to X2, the request of X2 (let through
  by a rule), and four blocked requests of the page.
\<close>

definition ex_six :: "tab_record list" where
  "ex_six =
     [mk_record ''X1'' (Some ''X2'') 10, mk_record ''X2'' None 20, mk_record ''S1'' None 30,
      mk_record ''S2'' None 31, mk_record ''S3'' None 32, mk_record ''S4'' None 33]"

text \<open>
  Ten records of which only the seventh from the newest end (index 3) has the committed URL
  \<open>U\<close> as target.
\<close>

definition ex_ten :: "tab_record list" where
  "ex_ten =
     [mk_record ''P0'' None 0, mk_record ''P1'' None 1, mk_record ''P2'' None 2,
      mk_record ''P3'' (Some ''U'') 3, mk_record ''P4'' None 4, mk_record ''P5'' None 5,
      mk_record ''P6'' None 6, mk_record ''P7'' None 7, mk_record ''P8'' None 8,
      mk_record ''P9'' None 9]"

text \<open>A chain of seven redirects, from U0 to U7.\<close>

definition ex_seven :: "tab_record list" where
  "ex_seven =
     [mk_record ''U0'' (Some ''U1'') 0, mk_record ''U1'' (Some ''U2'') 1,
      mk_record ''U2'' (Some ''U3'') 2, mk_record ''U3'' (Some ''U4'') 3,
      mk_record ''U4'' (Some ''U5'') 4, mk_record ''U5'' (Some ''U6'') 5,
      mk_record ''U6'' (Some ''U7'') 6]"

text \<open>Appending a list of records one after the other, with the value each call returns.\<close>

fun addRecords :: "tab_record list \<Rightarrow> state \<Rightarrow> nat list \<times> state" where
  "addRecords [] st = ([], st)"
| "addRecords (r # rs) st =
     (case addRecord r st of
        (n, st') \<Rightarrow> (case addRecords rs st' of (ns, st'') \<Rightarrow> (n # ns, st'')))"

text \<open>The triple by which the spec tells records apart, and the invariant it states.\<close>

definition record_key :: "tab_record \<Rightarrow> string \<times> string option \<times> int" where
  "record_key r = (url r, target r, timestamp r)"

definition no_duplicates :: "state \<Rightarrow> bool" where
  "no_duplicates st = (\<forall>tab rs. records st tab = Some rs \<longrightarrow> distinct (map record_key rs))"

text \<open>
  An event is fresh in a state when it is not the resolution of a request whose triple is
  already held for its tab; a list of events is fresh when each is, in the state it arrives in.
\<close>

definition fresh_event :: "state \<Rightarrow> event \<Rightarrow> bool" where
  "fresh_event st ev =
     (case ev of
        Resolved r updateTab \<Rightarrow> record_key r \<notin> set (map record_key (tab_records st (tabId r)))
      | _ \<Rightarrow> True)"

fun fresh_events ::
  "createRule_t \<Rightarrow> createMatchPatterns_t \<Rightarrow> accepts_t \<Rightarrow> state \<Rightarrow> event list \<Rightarrow> bool" where
  "fresh_events cr cmp acc st [] = True"
| "fresh_events cr cmp acc st (ev # evs) =
     (fresh_event st ev \<and> fresh_events cr cmp acc (step cr cmp acc st ev) evs)"

text \<open>
  An entry of \<open>options.rules\<close> compiles when it is active and neither \<open>createRule\<close> nor
  \<open>createMatchPatterns\<close> throws on it. It installs when it compiles and the host takes its
  filter; it is reported when it is active and does not install.
\<close>

definition compiles :: "createRule_t \<Rightarrow> createMatchPatterns_t \<Rightarrow> rule_data \<Rightarrow> bool" where
  "compiles cr cmp d = (active d \<and> \<not> isl (cr d) \<and> \<not> isl (cmp (pattern d)))"

definition installs ::
  "createRule_t \<Rightarrow> createMatchPatterns_t \<Rightarrow> accepts_t \<Rightarrow> rule_data \<Rightarrow> bool" where
  "installs cr cmp acc d = (compiles cr cmp d \<and> acc (projr (cmp (pattern d)), types d) [])"

definition reported ::
  "createRule_t \<Rightarrow> createMatchPatterns_t \<Rightarrow> accepts_t \<Rightarrow> rule_data \<Rightarrow> bool" where
  "reported cr cmp acc d = (active d \<and> \<not> installs cr cmp acc d)"

text \<open>
  The per-rule hooks of the entries that install, in the order of the entries, the closures
  numbered from \<open>n\<close>.
\<close>

definition rule_hooks ::
  "createRule_t \<Rightarrow> createMatchPatterns_t \<Rightarrow> accepts_t \<Rightarrow> nat \<Rightarrow> rule_data list \<Rightarrow> hook list"
  where
  "rule_hooks cr cmp acc n rs =
     map (\<lambda>(k, d). (RuleListener k (projr (cr d)), (projr (cmp (pattern d)), types d), []))
       (enumerate n (filter (installs cr cmp acc) rs))"

definition catch_all :: hook where
  "catch_all = (RequestControlListener, ([ALL_URLS], None), [''blocking''])"

text \<open>Every closure registered so far was numbered below \<open>next_closure\<close>.\<close>

definition closures_fresh :: "state \<Rightarrow> bool" where
  "closures_fresh st =
     (\<forall>h\<in>set (onBeforeRequest st).
        case fst h of RuleListener n r \<Rightarrow> n < next_closure st | RequestControlListener \<Rightarrow> True)"



text \<open>
  Examples: a \<open>createRule\<close> that throws on the body \<open>bad\<close>, a \<open>createMatchPatterns\<close> that throws
  on the empty pattern, a host that refuses the resource type \<open>bogus\<close>, and options.
\<close>

definition ex_createRule :: createRule_t where
  "ex_createRule d = (if body d = ''bad'' then Inl (Thrown ''invalid rule'') else Inr (Rule (body d)))"

definition ex_createMatchPatterns :: createMatchPatterns_t where
  "ex_createMatchPatterns p = (if p = [] then Inl (Thrown ''invalid pattern'') else Inr [p])"

definition ex_accepts :: accepts_t where
  "ex_accepts f extra = (snd f \<noteq> Some [''bogus''])"

definition mk_rule :: "bool \<Rightarrow> string \<Rightarrow> string \<Rightarrow> rule_data" where
  "mk_rule a p b = \<lparr>active = a, pattern = p, types = None, body = b\<rparr>"

definition ex_rules :: "rule_data list" where
  "ex_rules =
     [mk_rule True ''*://a.example/*'' ''r1'', mk_rule True ''*://b.example/*'' ''bad'',
      mk_rule False ''*://c.example/*'' ''r3'', mk_rule True [] ''r4'',
      mk_rule True ''*://e.example/*'' ''r5'',
      \<lparr>active = True, pattern = ''*://f.example/*'', types = Some [''bogus''], body = ''r6''\<rparr>]"

definition ex_enabled :: options where
  "ex_enabled = \<lparr>disabled = False, rules = Some ex_rules\<rparr>"


text \<open>Options that enable the script and have no \<open>rules\<close> field.\<close>

definition absent_rules :: options where
  "absent_rules = \<lparr>disabled = False, rules = None\<rparr>"

text \<open>Events for the examples.\<close>

definition ex_events :: "event list" where
  "ex_events =
     [Resolved (mk_record ''A'' (Some ''B'') 10) False,
      Resolved (mk_record ''B'' (Some ''C'') 20) False,
      Committed (commit ''C'' []),
      Resolved (mk_record ''S1'' None 30) False,
      TabRemoved 1,
      Resolved (mk_record ''S1'' None 30) False]"

definition ex_twice :: "event list" where
  "ex_twice =
     [Resolved (mk_record ''A'' None 10) False, Resolved (mk_record ''A'' None 10) False]"



section \<open>The loops of the reconciler, step by step\<close>

declare pass1.simps [simp del] pass2.simps [simp del]

lemma pass1_stop: "\<not> (i < 5 \<and> xs \<noteq> []) \<Longrightarrow> pass1 u sr i xs lr k = (xs, lr, k)"
  by (subst pass1.simps) auto

lemma pass1_hit:
  "i < 5 \<Longrightarrow> target x = Some u \<or> (sr \<and> truthy (target x)) \<Longrightarrow>
   pass1 u sr i (xs @ [x]) lr k = (xs, Some x, k @ [x])"
  by (subst pass1.simps) auto

lemma pass1_miss:
  "i < 5 \<Longrightarrow> \<not> (target x = Some u \<or> (sr \<and> truthy (target x))) \<Longrightarrow>
   pass1 u sr i (xs @ [x]) lr k = pass1 u sr (Suc i) xs (Some x) k"
  by (subst pass1.simps) auto

lemma pass2_stop: "\<not> (j < 5 \<and> xs \<noteq> []) \<Longrightarrow> pass2 j xs lr k = Inr (xs, lr, k)"
  by (subst pass2.simps) auto

lemma pass2_link:
  "j < 5 \<Longrightarrow> truthy (target x) \<Longrightarrow> target x = Some (url l) \<Longrightarrow>
   pass2 j (xs @ [x]) (Some l) k = pass2 (Suc j) xs (Some x) (x # k)"
  by (subst pass2.simps) auto

lemma pass2_skip:
  "j < 5 \<Longrightarrow> \<not> (truthy (target x) \<and> target x = Some (url l)) \<Longrightarrow>
   pass2 j (xs @ [x]) (Some l) k = pass2 (Suc j) xs (Some l) k"
  by (subst pass2.simps) auto

text \<open>
  What each loop returns: the records it popped are a suffix \<open>ys\<close> of the array, at most
  \<open>5 - i\<close> of them, and the loop stops early only when the array is used up (or, in the first
  loop, at the first anchor).
\<close>

lemma pass1_spec:
  "pass1 u sr i xs lr k = (xs', lr', k') \<Longrightarrow>
   \<exists>ys. xs = xs' @ ys \<and> length ys \<le> 5 - i \<and>
        ((k' = k \<and> (\<forall>r\<in>set ys. \<not> is_anchor u sr r) \<and> (xs' = [] \<or> length ys = 5 - i) \<and>
          lr' = (if ys = [] then lr else Some (hd ys))) \<or>
         (\<exists>r zs. ys = r # zs \<and> k' = k @ [r] \<and> lr' = Some r \<and> is_anchor u sr r \<and>
                 (\<forall>r\<in>set zs. \<not> is_anchor u sr r)))"
proof (induction u sr i xs lr k rule: pass1.induct)
  case (1 u sr i xs lr k)
  show ?case
  proof (cases "i < 5 \<and> xs \<noteq> []")
    case False
    with "1.prems" have "xs' = xs" "lr' = lr" "k' = k"
      by (simp_all add: pass1_stop)
    with False show ?thesis by auto
  next
    case True
    then obtain bs x where xs: "xs = bs @ [x]"
      by (metis append_butlast_last_id)
    show ?thesis
    proof (cases "target x = Some u \<or> (sr \<and> truthy (target x))")
      case hit: True
      with True xs "1.prems" have "xs' = bs" "lr' = Some x" "k' = k @ [x]"
        by (simp_all add: pass1_hit)
      with xs hit True show ?thesis by (auto simp: is_anchor_def)
    next
      case miss: False
      with True xs "1.prems" have rec: "pass1 u sr (i + 1) bs (Some x) k = (xs', lr', k')"
        by (simp add: pass1_miss)
      from "1.IH" [OF True _ ] miss xs rec
      obtain ys where ys: "bs = xs' @ ys" "length ys \<le> 5 - (i + 1)"
        "(k' = k \<and> (\<forall>r\<in>set ys. \<not> is_anchor u sr r) \<and> (xs' = [] \<or> length ys = 5 - (i + 1)) \<and>
          lr' = (if ys = [] then Some x else Some (hd ys))) \<or>
         (\<exists>r zs. ys = r # zs \<and> k' = k @ [r] \<and> lr' = Some r \<and> is_anchor u sr r \<and>
                 (\<forall>r\<in>set zs. \<not> is_anchor u sr r))"
        by auto
      have nx: "\<not> is_anchor u sr x" using miss by (simp add: is_anchor_def)
      have "xs = xs' @ (ys @ [x])" using xs ys by simp
      moreover have "length (ys @ [x]) \<le> 5 - i" using ys(2) True by (simp, arith)
      moreover have
        "(k' = k \<and> (\<forall>r\<in>set (ys @ [x]). \<not> is_anchor u sr r) \<and>
          (xs' = [] \<or> length (ys @ [x]) = 5 - i) \<and>
          lr' = (if ys @ [x] = [] then lr else Some (hd (ys @ [x])))) \<or>
         (\<exists>r zs. ys @ [x] = r # zs \<and> k' = k @ [r] \<and> lr' = Some r \<and> is_anchor u sr r \<and>
                 (\<forall>r\<in>set zs. \<not> is_anchor u sr r))"
        using ys(3) ys(2) nx True by (cases ys) auto
      ultimately show ?thesis by blast
    qed
  qed
qed

lemma pass2_spec:
  "pass2 j xs lr k = Inr (xs', lr', k') \<Longrightarrow>
   \<exists>ys ks. xs = xs' @ ys \<and> length ys \<le> 5 - j \<and> (xs' = [] \<or> length ys = 5 - j) \<and>
          k' = ks @ k \<and> subseq ks ys"
proof (induction j xs lr k rule: pass2.induct)
  case (1 j xs lr k)
  show ?case
  proof (cases "j < 5 \<and> xs \<noteq> []")
    case False
    with "1.prems" have "xs' = xs" "k' = k"
      by (simp_all add: pass2_stop)
    with False show ?thesis by auto
  next
    case True
    then obtain bs x where xs: "xs = bs @ [x]"
      by (metis append_butlast_last_id)
    show ?thesis
    proof (cases "truthy (target x)")
      case t: True
      with "1.prems" True xs obtain l where l: "lr = Some l"
        by (subst (asm) pass2.simps) (auto split: option.splits)
      show ?thesis
      proof (cases "target x = Some (url l)")
        case link: True
        with t True xs l "1.prems"
        have rec: "pass2 (j + 1) bs (Some x) (x # k) = Inr (xs', lr', k')"
          by (simp add: pass2_link)
        from "1.IH"(1) [OF True _ l] t link xs rec
        obtain ys ks where "bs = xs' @ ys" "length ys \<le> 5 - (j + 1)"
          "xs' = [] \<or> length ys = 5 - (j + 1)" "k' = ks @ x # k" "subseq ks ys"
          by auto
        then have "xs = xs' @ (ys @ [x])" "length (ys @ [x]) \<le> 5 - j"
          "xs' = [] \<or> length (ys @ [x]) = 5 - j" "k' = (ks @ [x]) @ k"
          "subseq (ks @ [x]) (ys @ [x])"
          using xs True by auto
        then show ?thesis by blast
      next
        case nolink: False
        with t True xs l "1.prems"
        have rec: "pass2 (j + 1) bs lr k = Inr (xs', lr', k')"
          by (simp add: pass2_skip)
        from "1.IH"(2) [OF True _ l] t nolink xs rec
        obtain ys ks where "bs = xs' @ ys" "length ys \<le> 5 - (j + 1)"
          "xs' = [] \<or> length ys = 5 - (j + 1)" "k' = ks @ k" "subseq ks ys"
          by auto
        then have "xs = xs' @ (ys @ [x])" "length (ys @ [x]) \<le> 5 - j"
          "xs' = [] \<or> length (ys @ [x]) = 5 - j" "k' = ks @ k"
          "subseq ks (ys @ [x])"
          using xs True by (auto simp: subseq_rev_drop_many)
        then show ?thesis by blast
      qed
    next
      case f: False
      with True xs "1.prems"
      have rec: "pass2 (j + 1) bs lr k = Inr (xs', lr', k')"
        by (subst (asm) pass2.simps) simp
      from "1.IH"(3) [OF True] f xs rec
      obtain ys ks where "bs = xs' @ ys" "length ys \<le> 5 - (j + 1)"
        "xs' = [] \<or> length ys = 5 - (j + 1)" "k' = ks @ k" "subseq ks ys"
        by auto
      then have "xs = xs' @ (ys @ [x])" "length (ys @ [x]) \<le> 5 - j"
        "xs' = [] \<or> length (ys @ [x]) = 5 - j" "k' = ks @ k"
        "subseq ks (ys @ [x])"
        using xs True by (auto simp: subseq_rev_drop_many)
      then show ?thesis by blast
    qed
  qed
qed

lemma pass2_no_error: "lr \<noteq> None \<or> xs = [] \<Longrightarrow> \<exists>res. pass2 j xs lr k = Inr res"
proof (induction j xs lr k rule: pass2.induct)
  case (1 j xs lr k)
  show ?case
  proof (cases "j < 5 \<and> xs \<noteq> []")
    case False
    then show ?thesis by (simp add: pass2_stop)
  next
    case True
    with "1.prems" obtain l where l: "lr = Some l" by auto
    show ?thesis
      using True l "1.IH"(1) [OF True _ l] "1.IH"(2) [OF True _ l] "1.IH"(3) [OF True]
      by (subst pass2.simps) auto
  qed
qed

text \<open>
  The two loops together. The second loop never reads \<open>lastRecord\<close> while it is undefined:
  the first loop leaves it undefined only when the array was empty from the start.
\<close>

lemma reconcile_spec:
  "\<exists>xs2 ys2 ys1 ks k1 lr1 lr2.
     xs = xs2 @ ys2 @ ys1 \<and> length ys1 \<le> 5 \<and> length ys2 \<le> 5 \<and>
     pass1 u sr 0 xs None [] = (xs2 @ ys2, lr1, k1) \<and>
     pass2 0 (xs2 @ ys2) lr1 k1 = Inr (xs2, lr2, ks @ k1) \<and>
     reconcile u sr xs = Inr (ks @ k1) \<and> subseq ks ys2 \<and>
     ((k1 = [] \<and> (\<forall>r\<in>set ys1. \<not> is_anchor u sr r) \<and> (xs2 @ ys2 = [] \<or> length ys1 = 5)) \<or>
      (\<exists>r zs. ys1 = r # zs \<and> k1 = [r] \<and> is_anchor u sr r \<and>
              (\<forall>r\<in>set zs. \<not> is_anchor u sr r)))"
proof -
  obtain xs1 lr1 k1 where p1: "pass1 u sr 0 xs None [] = (xs1, lr1, k1)"
    by (metis prod_cases3)
  from pass1_spec [OF p1] obtain ys1 where ys1: "xs = xs1 @ ys1" "length ys1 \<le> 5"
    and d1: "(k1 = [] \<and> (\<forall>r\<in>set ys1. \<not> is_anchor u sr r) \<and> (xs1 = [] \<or> length ys1 = 5) \<and>
      lr1 = (if ys1 = [] then None else Some (hd ys1))) \<or>
     (\<exists>r zs. ys1 = r # zs \<and> k1 = [] @ [r] \<and> lr1 = Some r \<and> is_anchor u sr r \<and>
             (\<forall>r\<in>set zs. \<not> is_anchor u sr r))"
    by (elim exE conjE) simp
  from d1 have "lr1 \<noteq> None \<or> xs1 = []"
    by (cases "ys1 = []") auto
  from pass2_no_error [OF this, of 0 k1] obtain res where "pass2 0 xs1 lr1 k1 = Inr res"
    by (elim exE)
  then obtain xs2 lr2 k2 where p2: "pass2 0 xs1 lr1 k1 = Inr (xs2, lr2, k2)"
    by (cases res) simp
  from pass2_spec [OF p2] obtain ys2 ks where ys2: "xs1 = xs2 @ ys2" "length ys2 \<le> 5"
    "k2 = ks @ k1" "subseq ks ys2"
    by (elim exE conjE) simp
  have r: "reconcile u sr xs = Inr (ks @ k1)"
    using p1 p2 ys2(3) by (simp add: reconcile_def)
  have c: "(k1 = [] \<and> (\<forall>r\<in>set ys1. \<not> is_anchor u sr r) \<and> (xs2 @ ys2 = [] \<or> length ys1 = 5)) \<or>
      (\<exists>r zs. ys1 = r # zs \<and> k1 = [r] \<and> is_anchor u sr r \<and>
              (\<forall>r\<in>set zs. \<not> is_anchor u sr r))"
    using d1 unfolding ys2(1) by (elim disjE exE conjE) simp_all
  show ?thesis
    apply (rule exI [of _ xs2], rule exI [of _ ys2], rule exI [of _ ys1], rule exI [of _ ks])
    apply (rule exI [of _ k1], rule exI [of _ lr1], rule exI [of _ lr2])
    using ys1 ys2 p1 p2 r c by simp
qed

lemma reconcile_total: "\<exists>keep. reconcile u sr xs = Inr keep"
  using reconcile_spec [of xs u sr] by blast

lemma reconcile_subseq: "reconcile u sr xs = Inr keep \<Longrightarrow> subseq keep xs"
proof -
  assume a: "reconcile u sr xs = Inr keep"
  from reconcile_spec [of xs u sr] obtain xs2 ys2 ys1 ks k1
    where s: "xs = xs2 @ ys2 @ ys1" "reconcile u sr xs = Inr (ks @ k1)" "subseq ks ys2"
      "k1 = [] \<or> (\<exists>r zs. ys1 = r # zs \<and> k1 = [r])"
    by blast
  from s(4) have "subseq k1 ys1" by auto
  with s(3) have "subseq (ks @ k1) (ys2 @ ys1)"
    by (rule list_emb_append_mono)
  then have "subseq (ks @ k1) xs"
    unfolding s(1) by (rule subseq_drop_many)
  with a s(2) show ?thesis by simp
qed

lemma reconcile_length: "reconcile u sr xs = Inr keep \<Longrightarrow> length keep \<le> 6"
proof -
  assume a: "reconcile u sr xs = Inr keep"
  from reconcile_spec [of xs u sr] obtain ys2 ys1 ks k1 :: "tab_record list"
    where s: "length ys2 \<le> 5" "reconcile u sr xs = Inr (ks @ k1)" "subseq ks ys2"
      "k1 = [] \<or> (\<exists>r zs. ys1 = r # zs \<and> k1 = [r])"
    by blast
  from s(3) have "length ks \<le> length ys2" by (rule list_emb_length)
  moreover from s(4) have "length k1 \<le> 1" by auto
  ultimately have "length (ks @ k1) \<le> 6" using s(1) by simp
  with a s(2) show ?thesis by simp
qed

text \<open>A navigation commit never throws.\<close>

lemma resetRecords_total: "\<exists>st'. resetRecords dt st = Inr st'"
proof (cases "records st (d_tabId dt)")
  case None
  then show ?thesis by (simp add: resetRecords_def)
next
  case (Some tabRecords)
  obtain keep
    where "reconcile (d_url dt) (''server_redirect'' \<in> set (transitionQualifiers dt)) tabRecords
           = Inr keep"
    using reconcile_total by blast
  with Some show ?thesis by (simp add: resetRecords_def)
qed

text \<open>
  What a top-level commit does to a tab that has a sequence, in terms of what \<open>reconcile\<close>
  keeps.
\<close>

lemma resetRecords_keep:
  "d_frameId dt = 0 \<Longrightarrow> records st (d_tabId dt) = Some tabRecords \<Longrightarrow>
   reconcile (d_url dt) (''server_redirect'' \<in> set (transitionQualifiers dt)) tabRecords = Inr keep \<Longrightarrow>
   resetRecords dt st =
     Inr (if keep \<noteq> [] then
            notify (Notify (d_tabId dt) (rule (last keep)) (length keep))
              (st\<lparr>records := (records st)(d_tabId dt \<mapsto> keep)\<rparr>)
          else notify (Clear (d_tabId dt)) (removeRecords (d_tabId dt) st))"
  by (simp add: resetRecords_def)

section \<open>Claims about the reconciler\<close>

text \<open>
  C2. The tab holds \<open>[r1, r2]\<close> where \<open>r1\<close> redirects to the URL of \<open>r2\<close> (a non-empty URL)
  and \<open>r2\<close> redirects to the committed URL. A top-level commit that is not a server redirect
  keeps both records in this order and notifies with the tab, the rule of \<open>r2\<close> and count 2.
\<close>

theorem C2_chain_of_two_kept:
  assumes "records st (d_tabId dt) = Some [r1, r2]"
    and "target r1 = Some (url r2)" and "url r2 \<noteq> []"
    and "target r2 = Some (d_url dt)"
    and "d_frameId dt = 0"
    and "''server_redirect'' \<notin> set (transitionQualifiers dt)"
  shows "resetRecords dt st =
     Inr (notify (Notify (d_tabId dt) (rule r2) 2)
           (st\<lparr>records := (records st)(d_tabId dt \<mapsto> [r1, r2])\<rparr>))"
proof -
  have p1: "pass1 (d_url dt) False 0 [r1, r2] None [] = ([r1], Some r2, [r2])"
    using pass1_hit [of 0 r2 "d_url dt" False "[r1]" None "[]"] assms by simp
  have p2: "pass2 0 [r1] (Some r2) [r2] = Inr ([], Some r1, [r1, r2])"
    using pass2_link [of 0 r1 r2 "[]" "[r2]"] assms by (simp add: truthy_def pass2_stop)
  have "reconcile (d_url dt) False [r1, r2] = Inr [r1, r2]"
    by (simp add: reconcile_def p1 p2)
  with assms show ?thesis
    by (simp add: resetRecords_keep numeral_2_eq_2)
qed

theorem C2_chain_of_two_kept_witness:
  "resetRecords (commit ''C'' []) (store_of ex_chain) =
     Inr (notify (Notify 1 (Rule ''B'') 2) (store_of ex_chain))
   \<and> records (store_of ex_chain) 1
      = Some [mk_record ''A'' (Some ''B'') 10, mk_record ''B'' (Some ''C'') 20]"
  using C2_chain_of_two_kept [of "store_of ex_chain" "commit ''C'' []"
      "mk_record ''A'' (Some ''B'') 10" "mk_record ''B'' (Some ''C'') 20"]
  by (simp add: store_of_def commit_def ex_chain_def mk_record_def initial_state_def)

text \<open>
  C4. The tab holds the single record \<open>r\<close> with a non-empty target. On a top-level commit
  that is a server redirect, to any URL (the target of \<open>r\<close> or not), the first loop adopts \<open>r\<close>
  as anchor; the sequence afterwards is \<open>[r]\<close> and the notifier is told count 1.
\<close>

theorem C4_server_redirect_adopts:
  assumes "records st (d_tabId dt) = Some [r]"
    and "target r = Some b" and "b \<noteq> []"
    and "d_frameId dt = 0"
    and "''server_redirect'' \<in> set (transitionQualifiers dt)"
  shows "pass1 (d_url dt) True 0 [r] None [] = ([], Some r, [r]) \<and>
     resetRecords dt st =
       Inr (notify (Notify (d_tabId dt) (rule r) 1)
             (st\<lparr>records := (records st)(d_tabId dt \<mapsto> [r])\<rparr>))"
proof -
  have p1: "pass1 (d_url dt) True 0 [r] None [] = ([], Some r, [r])"
    using pass1_hit [of 0 r "d_url dt" True "[]" None "[]"] assms by (simp add: truthy_def)
  have "reconcile (d_url dt) True [r] = Inr [r]"
    by (simp add: reconcile_def p1 pass2_stop)
  with assms p1 show ?thesis
    by (simp add: resetRecords_keep)
qed

theorem C4_server_redirect_adopts_witness:
  "''C'' \<noteq> ''B'' \<and>
   pass1 ''C'' True 0 [mk_record ''A'' (Some ''B'') 10] None []
     = ([], Some (mk_record ''A'' (Some ''B'') 10), [mk_record ''A'' (Some ''B'') 10]) \<and>
   resetRecords (commit ''C'' [''server_redirect'']) (store_of [mk_record ''A'' (Some ''B'') 10])
     = Inr (notify (Notify 1 (Rule ''A'') 1) (store_of [mk_record ''A'' (Some ''B'') 10]))"
  using C4_server_redirect_adopts [of "store_of [mk_record ''A'' (Some ''B'') 10]"
      "commit ''C'' [''server_redirect'']" "mk_record ''A'' (Some ''B'') 10" "''B''"]
  by (simp add: store_of_def commit_def mk_record_def initial_state_def)

text \<open>
  When the first loop adopts no anchor and the sequence has at most five records, the first
  loop uses the array up, the second loop has nothing to pop, and the sequence is cleared.
\<close>

lemma reconcile_no_anchor_short:
  assumes "length xs \<le> 5" and "\<forall>r\<in>set xs. \<not> is_anchor u sr r"
  shows "reconcile u sr xs = Inr []"
proof -
  from reconcile_spec [of xs u sr] obtain xs2 ys2 ys1 ks k1
    where s: "xs = xs2 @ ys2 @ ys1" "reconcile u sr xs = Inr (ks @ k1)" "subseq ks ys2"
      and d: "(k1 = [] \<and> (xs2 @ ys2 = [] \<or> length ys1 = 5)) \<or>
              (\<exists>r zs. ys1 = r # zs \<and> k1 = [r] \<and> is_anchor u sr r)"
    by blast
  have "\<not> (\<exists>r zs. ys1 = r # zs \<and> k1 = [r] \<and> is_anchor u sr r)"
    using s(1) assms(2) by auto
  with d have "k1 = []" "xs2 @ ys2 = [] \<or> length ys1 = 5" by blast+
  with assms(1) s(1) have "ys2 = []" by auto
  with s(2,3) \<open>k1 = []\<close> show ?thesis by simp
qed

lemma resetRecords_no_anchor_short:
  assumes "d_frameId dt = 0" and "records st (d_tabId dt) = Some tabRecords"
    and "length tabRecords \<le> 5"
    and "\<forall>r\<in>set tabRecords.
           \<not> is_anchor (d_url dt) (''server_redirect'' \<in> set (transitionQualifiers dt)) r"
  shows "resetRecords dt st = Inr (notify (Clear (d_tabId dt)) (removeRecords (d_tabId dt) st))"
  using resetRecords_keep [OF assms(1,2) reconcile_no_anchor_short [OF assms(3,4)]]
  by simp

text \<open>The example of the spec: the chain of two records and a commit to another URL.\<close>

lemma resetRecords_chain_of_two_miss:
  "resetRecords (commit ''D'' []) (store_of ex_chain) =
     Inr (notify (Clear 1) (removeRecords 1 (store_of ex_chain)))"
proof -
  have "reconcile ''D'' False ex_chain = Inr []"
    by code_simp
  then show ?thesis
    using resetRecords_keep [of "commit ''D'' []" "store_of ex_chain" ex_chain "[]"]
    by (simp add: commit_def store_of_def initial_state_def)
qed

text \<open>
  C1. With six records the second loop still runs after the first loop found no anchor, and
  walks back from the last record the first loop popped. On \<open>ex_six\<close> and a commit to \<open>D\<close>
  (no record has target \<open>D\<close>, no server redirect) the first loop adopts nothing, the second
  keeps the oldest record, and the tab is left with one record and a \<open>notify\<close> of count 1,
  not cleared.
\<close>

theorem C1_no_anchor_but_kept:
  "filter (is_anchor ''D'' False) ex_six = [] \<and>
   pass1 ''D'' False 0 ex_six None []
     = ([mk_record ''X1'' (Some ''X2'') 10], Some (mk_record ''X2'' None 20), []) \<and>
   resetRecords (commit ''D'' []) (store_of ex_six)
     = Inr (notify (Notify 1 (Rule ''X1'') 1) (store_of [mk_record ''X1'' (Some ''X2'') 10])) \<and>
   resetRecords (commit ''D'' []) (store_of ex_six)
     \<noteq> Inr (notify (Clear 1) (removeRecords 1 (store_of ex_six)))"
proof -
  have a: "filter (is_anchor ''D'' False) ex_six = []"
    by (simp add: ex_six_def is_anchor_def mk_record_def)
  have p: "pass1 ''D'' False 0 ex_six None []
     = ([mk_record ''X1'' (Some ''X2'') 10], Some (mk_record ''X2'' None 20), [])"
    by code_simp
  have "reconcile ''D'' False ex_six = Inr [mk_record ''X1'' (Some ''X2'') 10]"
    by code_simp
  then have r: "resetRecords (commit ''D'' []) (store_of ex_six)
     = Inr (notify (Notify 1 (Rule ''X1'') 1) (store_of [mk_record ''X1'' (Some ''X2'') 10]))"
    using resetRecords_keep [of "commit ''D'' []" "store_of ex_six" ex_six
        "[mk_record ''X1'' (Some ''X2'') 10]"]
    by (simp add: commit_def store_of_def initial_state_def mk_record_def)
  have "notifier_log (notify (Notify 1 (Rule ''X1'') 1) (store_of [mk_record ''X1'' (Some ''X2'') 10]))
        \<noteq> notifier_log (notify (Clear 1) (removeRecords 1 (store_of ex_six)))"
    by (simp add: notify_def store_of_def initial_state_def removeRecords_def)
  then have n: "resetRecords (commit ''D'' []) (store_of ex_six)
     \<noteq> Inr (notify (Clear 1) (removeRecords 1 (store_of ex_six)))"
    unfolding r by auto
  from a p r n show ?thesis by simp
qed

text \<open>
  C3. Each loop pops at most five records, whatever the length of the sequence: what is left
  after a loop is a prefix of what it started from, at most five shorter. An anchor is the
  record just after the prefix the first loop leaves, so it is one of the newest five. For ten
  records the first loop leaves at least the oldest five; when only the record at index 3 (the
  seventh from the newest end) has the committed URL as target and the commit is no server
  redirect, it adopts no anchor and leaves exactly the oldest five.
\<close>

theorem C3_each_pass_pops_at_most_five:
  assumes "pass1 u sr 0 xs None [] = (xs1, lr1, k1)"
  shows "\<exists>xs2 lr2 k2.
     pass2 0 xs1 lr1 k1 = Inr (xs2, lr2, k2) \<and>
     xs1 = take (length xs1) xs \<and> length xs \<le> length xs1 + 5 \<and>
     xs2 = take (length xs2) xs1 \<and> length xs1 \<le> length xs2 + 5 \<and>
     (k1 = [] \<or> (k1 = [xs ! length xs1] \<and> length xs1 < length xs)) \<and>
     (length xs = 10 \<longrightarrow>
        5 \<le> length xs1 \<and>
        (\<not> sr \<and> map (\<lambda>r. target r = Some u) xs
                 = [False, False, False, True, False, False, False, False, False, False] \<longrightarrow>
         k1 = [] \<and> xs1 = take 5 xs))"
proof -
  from reconcile_spec [of xs u sr] obtain xs2 ys2 ys1 ks k1' lr1' lr2
    where s0: "xs = xs2 @ ys2 @ ys1" "length ys1 \<le> 5" "length ys2 \<le> 5"
      "pass1 u sr 0 xs None [] = (xs2 @ ys2, lr1', k1')"
      "pass2 0 (xs2 @ ys2) lr1' k1' = Inr (xs2, lr2, ks @ k1')"
      and d0: "(k1' = [] \<and> (\<forall>r\<in>set ys1. \<not> is_anchor u sr r) \<and>
                (xs2 @ ys2 = [] \<or> length ys1 = 5)) \<or>
              (\<exists>r zs. ys1 = r # zs \<and> k1' = [r] \<and> is_anchor u sr r \<and>
                      (\<forall>r\<in>set zs. \<not> is_anchor u sr r))"
    by (elim exE conjE)
  from s0(4) assms have eq: "xs1 = xs2 @ ys2" "lr1' = lr1" "k1' = k1" by simp_all
  note s = s0(1-3) eq(1) s0(5) [unfolded eq(2,3), folded eq(1)]
  have d: "(k1 = [] \<and> (\<forall>r\<in>set ys1. \<not> is_anchor u sr r) \<and> (xs2 @ ys2 = [] \<or> length ys1 = 5)) \<or>
              (\<exists>r zs. ys1 = r # zs \<and> k1 = [r] \<and> is_anchor u sr r)"
    using d0 unfolding eq(3) by blast
  have x1: "xs = xs1 @ ys1" using s(1,4) by simp
  have a: "xs1 = take (length xs1) xs" "length xs \<le> length xs1 + 5"
    using x1 s(2) by simp_all
  have b: "xs2 = take (length xs2) xs1" "length xs1 \<le> length xs2 + 5"
    using s(3,4) by simp_all
  have c: "k1 = [] \<or> (k1 = [xs ! length xs1] \<and> length xs1 < length xs)"
    using d x1 by (auto simp: nth_append)
  have e: "k1 = [] \<and> xs1 = take 5 xs"
    if ten: "length xs = 10" and nsr: "\<not> sr"
      and m: "map (\<lambda>r. target r = Some u) xs
              = [False, False, False, True, False, False, False, False, False, False]"
  proof -
    have ys: "ys1 = drop (length xs1) xs" using x1 by simp
    have five: "5 \<le> length xs1" using a(2) ten by simp
    have "map (\<lambda>r. target r = Some u) (drop 5 xs) = [False, False, False, False, False]"
      unfolding drop_map [symmetric] m by simp
    then have "(target r = Some u) \<in> {False}" if "r \<in> set (drop 5 xs)" for r
      using imageI [OF that, of "\<lambda>r. target r = Some u"]
      unfolding set_map [symmetric] by simp
    then have "\<forall>r\<in>set (drop 5 xs). target r \<noteq> Some u"
      by simp
    moreover have "set ys1 \<subseteq> set (drop 5 xs)"
      unfolding ys using five by (rule set_drop_subset_set_drop)
    ultimately have "\<forall>r\<in>set ys1. \<not> is_anchor u sr r"
      using nsr by (auto simp: is_anchor_def)
    with d have "k1 = []" "xs2 @ ys2 = [] \<or> length ys1 = 5" by auto
    with x1 s(2,4) ten have "length ys1 = 5" by auto
    with x1 ten have "length xs1 = 5" by auto
    with a(1) \<open>k1 = []\<close> show ?thesis by simp
  qed
  have f: "length xs = 10 \<longrightarrow> 5 \<le> length xs1" using a(2) by simp
  show ?thesis
    apply (rule exI [of _ xs2], rule exI [of _ lr2], rule exI [of _ "ks @ k1"])
    using s(5) a b c e f by simp
qed

theorem C3_each_pass_pops_at_most_five_witness:
  "pass1 ''U'' False 0 ex_ten None [] = (take 5 ex_ten, Some (ex_ten ! 5), []) \<and>
   length ex_ten = 10 \<and> target (ex_ten ! 3) = Some ''U'' \<and>
   (\<exists>xs2 lr2 k2. pass2 0 (take 5 ex_ten) (Some (ex_ten ! 5)) [] = Inr (xs2, lr2, k2) \<and>
      length (take 5 ex_ten) \<le> length xs2 + 5)"
proof -
  have p: "pass1 ''U'' False 0 ex_ten None [] = (take 5 ex_ten, Some (ex_ten ! 5), [])"
    by code_simp
  have l: "length ex_ten = 10" "target (ex_ten ! 3) = Some ''U''"
    by (simp_all add: ex_ten_def mk_record_def)
  from C3_each_pass_pops_at_most_five [OF p] p l show ?thesis by blast
qed

text \<open>
  C10. What the reconciler keeps has at most six records: the first loop contributes at most
  one record (the anchor), the second puts at most five predecessors in front of it. So after
  a top-level commit the sequence of a tab that had one has at most six records (none when it
  was removed).
\<close>

theorem C10_kept_at_most_six:
  "(\<exists>xs1 lr1 k1 xs2 lr2 ks.
      pass1 u sr 0 xs None [] = (xs1, lr1, k1) \<and> length k1 \<le> 1 \<and>
      pass2 0 xs1 lr1 k1 = Inr (xs2, lr2, ks @ k1) \<and> length ks \<le> 5 \<and>
      reconcile u sr xs = Inr (ks @ k1) \<and> length (ks @ k1) \<le> 6) \<and>
   (d_frameId dt = 0 \<longrightarrow> records st (d_tabId dt) \<noteq> None \<longrightarrow>
      (\<exists>st'. resetRecords dt st = Inr st' \<and> length (tab_records st' (d_tabId dt)) \<le> 6))"
proof -
  have a: "\<exists>xs1 lr1 k1 xs2 lr2 ks.
      pass1 u sr 0 xs None [] = (xs1, lr1, k1) \<and> length k1 \<le> 1 \<and>
      pass2 0 xs1 lr1 k1 = Inr (xs2, lr2, ks @ k1) \<and> length ks \<le> 5 \<and>
      reconcile u sr xs = Inr (ks @ k1) \<and> length (ks @ k1) \<le> 6"
  proof -
    from reconcile_spec [of xs u sr] obtain xs2 ys2 ys1 ks k1 lr1 lr2
      where s: "length ys2 \<le> 5" "pass1 u sr 0 xs None [] = (xs2 @ ys2, lr1, k1)"
        "pass2 0 (xs2 @ ys2) lr1 k1 = Inr (xs2, lr2, ks @ k1)"
        "reconcile u sr xs = Inr (ks @ k1)" "subseq ks ys2"
        and d: "k1 = [] \<or> (\<exists>r zs. ys1 = r # zs \<and> k1 = [r])"
      by blast
    from s(5) have "length ks \<le> length ys2" by (rule list_emb_length)
    with s(1) have k: "length ks \<le> 5" by simp
    from d have k1: "length k1 \<le> 1" by auto
    from k k1 have "length (ks @ k1) \<le> 6" by simp
    with s(2-4) k k1 show ?thesis by blast
  qed
  have b: "\<exists>st'. resetRecords dt st = Inr st' \<and> length (tab_records st' (d_tabId dt)) \<le> 6"
    if f: "d_frameId dt = 0" and r: "records st (d_tabId dt) \<noteq> None"
  proof -
    from r obtain tabRecords where t: "records st (d_tabId dt) = Some tabRecords" by auto
    obtain keep
      where k: "reconcile (d_url dt) (''server_redirect'' \<in> set (transitionQualifiers dt))
                  tabRecords = Inr keep"
      using reconcile_total by blast
    from reconcile_length [OF k] show ?thesis
      unfolding resetRecords_keep [OF f t k]
      by (simp add: tab_records_def notify_def removeRecords_def)
  qed
  from a b show ?thesis by blast
qed

theorem C10_kept_at_most_six_witness:
  "reconcile ''U7'' False ex_seven = Inr (tl ex_seven) \<and> length (tl ex_seven) = 6 \<and>
   d_frameId (commit ''U7'' []) = 0 \<and> records (store_of ex_seven) 1 \<noteq> None \<and>
   (\<exists>st'. resetRecords (commit ''U7'' []) (store_of ex_seven) = Inr st' \<and>
          length (tab_records st' 1) \<le> 6)"
proof -
  have r: "reconcile ''U7'' False ex_seven = Inr (tl ex_seven)"
    by code_simp
  have l: "length (tl ex_seven) = 6"
    by (simp add: ex_seven_def)
  have h: "d_frameId (commit ''U7'' []) = 0" "records (store_of ex_seven) 1 \<noteq> None"
    "d_tabId (commit ''U7'' []) = 1"
    by (simp_all add: commit_def store_of_def)
  from C10_kept_at_most_six [of "''U7''" False ex_seven "commit ''U7'' []" "store_of ex_seven"]
  have "\<exists>st'. resetRecords (commit ''U7'' []) (store_of ex_seven) = Inr st' \<and>
          length (tab_records st' (d_tabId (commit ''U7'' []))) \<le> 6"
    using h by simp
  with r l h show ?thesis by simp
qed

section \<open>Claims about the record store\<close>

lemma addRecord_eq:
  "addRecord r st =
     (Suc (length (tab_records st (tabId r))),
      st\<lparr>records := (records st)(tabId r \<mapsto> tab_records st (tabId r) @ [r])\<rparr>)"
  by (simp add: addRecord_def tab_records_def Let_def)

lemma addRecords_same_tab:
  "\<forall>r\<in>set rs. tabId r = tab \<Longrightarrow>
   addRecords rs st =
     (map (\<lambda>k. length (tab_records st tab) + k) [1..<Suc (length rs)],
      if rs = [] then st
      else st\<lparr>records := (records st)(tab \<mapsto> tab_records st tab @ rs)\<rparr>)"
proof (induction rs arbitrary: st)
  case Nil
  then show ?case by simp
next
  case (Cons r rs)
  let ?st = "st\<lparr>records := (records st)(tab \<mapsto> tab_records st tab @ [r])\<rparr>"
  have t: "tabId r = tab" and all: "\<forall>r\<in>set rs. tabId r = tab"
    using Cons.prems by simp_all
  have tr: "tab_records ?st tab = tab_records st tab @ [r]"
    by (simp add: tab_records_def)
  have m: "map (\<lambda>k. length (tab_records st tab) + k) [1..<Suc (length (r # rs))]
      = Suc (length (tab_records st tab))
        # map (\<lambda>k. length (tab_records ?st tab) + k) [1..<Suc (length rs)]"
  proof -
    have "[1..<Suc (length (r # rs))] = 1 # [Suc 1..<Suc (Suc (length rs))]"
      by (subst upt_rec) simp
    then have "[1..<Suc (length (r # rs))] = 1 # map Suc [1..<Suc (length rs)]"
      by (simp only: map_Suc_upt)
    then show ?thesis by (simp add: tr comp_def)
  qed
  show ?case
    unfolding m using Cons.IH [OF all, of ?st] t
    by (simp add: addRecord_eq tr)
qed


text \<open>
  C6. Appending the records \<open>rs\<close>, all of one tab, puts them behind the tab's sequence in
  the order of the calls; the calls return the lengths after each append. For a tab without
  a sequence the result is \<open>rs\<close> itself and the calls return 1, 2, ... No sequence is made
  before the first append. Each single call returns the length of the tab's sequence as it is
  after the call.
\<close>

theorem C6_appends_in_order:
  assumes "\<forall>r\<in>set rs. tabId r = tab"
  shows "addRecords rs st =
       (map (\<lambda>k. length (tab_records st tab) + k) [1..<Suc (length rs)],
        if rs = [] then st
        else st\<lparr>records := (records st)(tab \<mapsto> tab_records st tab @ rs)\<rparr>) \<and>
     (records st tab = None \<longrightarrow>
        addRecords rs st =
          ([1..<Suc (length rs)],
           if rs = [] then st else st\<lparr>records := (records st)(tab \<mapsto> rs)\<rparr>)) \<and>
     length (tab_records (snd (addRecord r st)) (tabId r)) = fst (addRecord r st) \<and>
     tab_records (snd (addRecord r st)) (tabId r) = tab_records st (tabId r) @ [r]"
proof -
  note a = addRecords_same_tab [OF assms, of st]
  have b: "addRecords rs st =
          ([1..<Suc (length rs)],
           if rs = [] then st else st\<lparr>records := (records st)(tab \<mapsto> rs)\<rparr>)"
    if "records st tab = None"
  proof -
    from that have "tab_records st tab = []" by (simp add: tab_records_def)
    with a show ?thesis by simp
  qed
  have c: "length (tab_records (snd (addRecord r st)) (tabId r)) = fst (addRecord r st)"
    "tab_records (snd (addRecord r st)) (tabId r) = tab_records st (tabId r) @ [r]"
    by (simp_all add: addRecord_eq) (simp_all add: tab_records_def)
  from a b c show ?thesis by simp
qed

theorem C6_appends_in_order_witness:
  "addRecords [mk_record ''A'' None 1, mk_record ''B'' (Some ''C'') 2, mk_record ''C'' None 3]
     initial_state =
     ([1, 2, 3],
      initial_state\<lparr>records :=
        [1 \<mapsto> [mk_record ''A'' None 1, mk_record ''B'' (Some ''C'') 2, mk_record ''C'' None 3]]\<rparr>)"
proof -
  let ?rs = "[mk_record ''A'' None 1, mk_record ''B'' (Some ''C'') 2, mk_record ''C'' None 3]"
  have h: "\<forall>r\<in>set ?rs. tabId r = 1"
    by (simp add: mk_record_def)
  have n: "records initial_state 1 = None" "records initial_state = Map.empty"
    by (simp_all add: initial_state_def)
  have u: "[1..<Suc (length ?rs)] = [1, 2, 3]"
    by (simp add: upt_rec)
  from C6_appends_in_order [OF h, of initial_state] n(1)
  have "addRecords ?rs initial_state =
          ([1..<Suc (length ?rs)],
           if ?rs = [] then initial_state
           else initial_state\<lparr>records := (records initial_state)(1 \<mapsto> ?rs)\<rparr>)"
    by blast
  then show ?thesis
    unfolding u n(2) by simp
qed

section \<open>The hooks and the store across configuration changes\<close>

declare remove_request_listeners.simps [simp del]

lemma set_last_butlast: "xs \<noteq> [] \<Longrightarrow> set xs = insert (last xs) (set (butlast xs))"
  by (cases xs rule: rev_cases) simp_all

lemma remove_request_listeners_eq:
  "remove_request_listeners st =
     st\<lparr>requestListeners := [],
        onBeforeRequest := filter (\<lambda>h. fst h \<notin> set (requestListeners st)) (onBeforeRequest st)\<rparr>"
proof (induction st rule: remove_request_listeners.induct)
  case (1 st)
  show ?case
  proof (cases "requestListeners st = []")
    case True
    then show ?thesis by (subst remove_request_listeners.simps) simp
  next
    case False
    then have s: "set (requestListeners st)
        = insert (last (requestListeners st)) (set (butlast (requestListeners st)))"
      by (rule set_last_butlast)
    have f: "filter (\<lambda>h. fst h \<notin> set (butlast (requestListeners st)))
               (removeListener (last (requestListeners st)) (onBeforeRequest st))
           = filter (\<lambda>h. fst h \<notin> set (requestListeners st)) (onBeforeRequest st)"
      unfolding s removeListener_def by (auto intro: filter_cong)
    show ?thesis
      using False "1.IH" [OF False] f
      by (subst remove_request_listeners.simps) simp
  qed
qed

lemma initOnChange_eq:
  "initOnChange st =
     st\<lparr>requestListeners := [],
        onBeforeRequest :=
          filter (\<lambda>h. fst h \<notin> set (requestListeners st) \<and> fst h \<noteq> RequestControlListener)
            (onBeforeRequest st),
        pending_reads := Suc (pending_reads st)\<rparr>"
  by (simp add: initOnChange_def Let_def remove_request_listeners_eq removeListener_def conj_commute)

text \<open>What one entry does, by whether it installs, is reported, or is not active.\<close>

lemma install_rule_eq:
  "install_rule cr cmp acc d st =
     (if installs cr cmp acc d then
        st\<lparr>onBeforeRequest :=
              addListener
                (RuleListener (next_closure st) (projr (cr d)), (projr (cmp (pattern d)), types d), [])
                (onBeforeRequest st),
           requestListeners :=
              requestListeners st @ [RuleListener (next_closure st) (projr (cr d))],
           next_closure := Suc (next_closure st)\<rparr>
      else if reported cr cmp acc d then notify (Error None ''error_invalid_rule'') st
      else st)"
  by (simp add: install_rule_def installs_def compiles_def reported_def split: sum.splits)

lemma records_install_rule [simp]: "records (install_rule cr cmp acc d st) = records st"
  by (simp add: install_rule_eq notify_def)

lemma records_install_rules [simp]: "records (install_rules cr cmp acc rs st) = records st"
  by (induction rs arbitrary: st) simp_all

lemma records_addRuleListeners [simp]:
  "records (snd (addRuleListeners cr cmp acc rs st)) = records st"
  by (simp add: addRuleListeners_def Let_def split: option.splits)

lemma records_init:
  "records (snd (init cr cmp acc opts st)) = (if disabled opts then Map.empty else records st)"
proof (cases "disabled opts")
  case True
  then show ?thesis by (simp add: init_def Let_def notify_def)
next
  case False
  have "records (snd (addRuleListeners cr cmp acc (rules opts) (notify EnabledState st)))
        = records st"
    by (simp add: notify_def)
  with False show ?thesis
    by (cases "addRuleListeners cr cmp acc (rules opts) (notify EnabledState st)")
       (auto simp: init_def split: option.splits)
qed

lemma records_startup: "records (startup cr cmp acc opts) = Map.empty"
proof -
  have "records (snd (init cr cmp acc opts initial_state)) = Map.empty"
    by (simp add: records_init initial_state_def)
  then show ?thesis
    by (cases "init cr cmp acc opts initial_state") (auto simp: startup_def split: option.splits)
qed

lemma subseq_distinct: "subseq xs ys \<Longrightarrow> distinct ys \<Longrightarrow> distinct xs"
  by (induction rule: list_emb.induct) (auto dest: list_emb_set)

lemma no_duplicates_resetRecords:
  assumes "no_duplicates st" and "resetRecords dt st = Inr st'"
  shows "no_duplicates st'"
proof (cases "d_frameId dt = 0 \<and> records st (d_tabId dt) \<noteq> None")
  case False
  with assms show ?thesis by (auto simp: resetRecords_def split: if_splits)
next
  case True
  then obtain tabRecords where t: "d_frameId dt = 0" "records st (d_tabId dt) = Some tabRecords"
    by auto
  obtain keep
    where k: "reconcile (d_url dt) (''server_redirect'' \<in> set (transitionQualifiers dt))
                tabRecords = Inr keep"
    using reconcile_total by blast
  from reconcile_subseq [OF k] have "subseq (map record_key keep) (map record_key tabRecords)"
    by (rule subseq_map)
  moreover from assms(1) t(2) have "distinct (map record_key tabRecords)"
    by (simp add: no_duplicates_def)
  ultimately have d: "distinct (map record_key keep)"
    by (rule subseq_distinct)
  from assms(2) have "st' = (if keep \<noteq> [] then
            notify (Notify (d_tabId dt) (rule (last keep)) (length keep))
              (st\<lparr>records := (records st)(d_tabId dt \<mapsto> keep)\<rparr>)
          else notify (Clear (d_tabId dt)) (removeRecords (d_tabId dt) st))"
    unfolding resetRecords_keep [OF t k] by simp
  with assms(1) d show ?thesis
    by (auto simp: no_duplicates_def notify_def removeRecords_def)
qed

lemma no_duplicates_step:
  assumes "no_duplicates st" and "fresh_event st ev"
  shows "no_duplicates (step cr cmp acc st ev)"
proof (cases ev)
  case StorageChanged
  with assms(1) show ?thesis
    by (simp add: step_def no_duplicates_def initOnChange_eq)
next
  case (OptionsRead opts)
  have "records (snd (init cr cmp acc opts (st\<lparr>pending_reads := pending_reads st - 1\<rparr>)))
        = (if disabled opts then Map.empty else records st)"
    by (simp add: records_init)
  with assms(1) OptionsRead show ?thesis
    by (simp add: step_def no_duplicates_def)
next
  case (Resolved r updateTab)
  with assms have "record_key r \<notin> set (map record_key (tab_records st (tabId r)))"
    by (simp add: fresh_event_def)
  moreover have "distinct (map record_key (tab_records st (tabId r)))"
    using assms(1) by (simp add: no_duplicates_def tab_records_def split: option.splits)
  ultimately have "no_duplicates (onResolved r updateTab st)"
    using assms(1)
    by (auto simp: onResolved_def addRecord_eq notify_def no_duplicates_def)
  with assms(1) Resolved show ?thesis
    by (simp add: step_def)
next
  case (Committed dt)
  obtain st' where "resetRecords dt st = Inr st'"
    using resetRecords_total by blast
  with assms(1) Committed no_duplicates_resetRecords [OF assms(1) this] show ?thesis
    by (simp add: step_def)
next
  case (TabRemoved tab)
  with assms(1) show ?thesis
    by (simp add: step_def removeRecords_def no_duplicates_def)
qed

lemma no_duplicates_foldl:
  "no_duplicates st \<Longrightarrow> fresh_events cr cmp acc st evs \<Longrightarrow>
   no_duplicates (foldl (step cr cmp acc) st evs)"
  by (induction evs arbitrary: st) (simp_all add: no_duplicates_step)

lemma rule_hooks_Nil [simp]: "rule_hooks cr cmp acc n [] = []"
  by (simp add: rule_hooks_def)

lemma rule_hooks_Cons:
  "rule_hooks cr cmp acc n (d # rs) =
     (if installs cr cmp acc d then
        (RuleListener n (projr (cr d)), (projr (cmp (pattern d)), types d), [])
          # rule_hooks cr cmp acc (Suc n) rs
      else rule_hooks cr cmp acc n rs)"
  by (simp add: rule_hooks_def)

lemma rule_hooks_length:
  "length (rule_hooks cr cmp acc n rs) = length (filter (installs cr cmp acc) rs)"
  by (simp add: rule_hooks_def)

lemma rule_hooks_not_catch_all:
  "RequestControlListener \<notin> fst ` set (rule_hooks cr cmp acc n rs)"
  by (auto simp: rule_hooks_def)


lemma reported_not_installs: "reported cr cmp acc d \<Longrightarrow> \<not> installs cr cmp acc d"
  by (simp add: reported_def)

lemma install_rules_eq:
  "closures_fresh st \<Longrightarrow>
   install_rules cr cmp acc rs st =
     st\<lparr>onBeforeRequest := onBeforeRequest st @ rule_hooks cr cmp acc (next_closure st) rs,
        requestListeners :=
          requestListeners st @ map fst (rule_hooks cr cmp acc (next_closure st) rs),
        next_closure := next_closure st + length (filter (installs cr cmp acc) rs),
        notifier_log :=
          notifier_log st
            @ replicate (length (filter (reported cr cmp acc) rs))
                (Error None ''error_invalid_rule'')\<rparr>"
proof (induction rs arbitrary: st)
  case Nil
  then show ?case by simp
next
  case (Cons d rs)
  show ?case
  proof (cases "installs cr cmp acc d")
    case True
    let ?l = "RuleListener (next_closure st) (projr (cr d))"
    let ?h = "(?l, (projr (cmp (pattern d)), types d), [])"
    let ?st = "st\<lparr>onBeforeRequest := onBeforeRequest st @ [?h],
                  requestListeners := requestListeners st @ [?l],
                  next_closure := Suc (next_closure st)\<rparr>"
    have "?l \<notin> fst ` set (onBeforeRequest st)"
      using Cons.prems by (force simp: closures_fresh_def)
    then have a: "addListener ?h (onBeforeRequest st) = onBeforeRequest st @ [?h]"
      by (simp add: addListener_def)
    have s: "install_rule cr cmp acc d st = ?st"
      using True by (simp add: install_rule_eq a)
    have f: "closures_fresh ?st"
      using Cons.prems by (auto simp: closures_fresh_def split: listener.splits)
    have nf: "\<not> reported cr cmp acc d"
      using True by (simp add: reported_def)
    show ?thesis
      using Cons.IH [OF f] True nf
      by (simp add: s rule_hooks_Cons)
  next
    case False
    show ?thesis
    proof (cases "reported cr cmp acc d")
      case True
      have f: "closures_fresh (notify (Error None ''error_invalid_rule'') st)"
        using Cons.prems by (auto simp: closures_fresh_def notify_def split: listener.splits)
      show ?thesis
        using Cons.IH [OF f] True False
        by (simp add: install_rule_eq rule_hooks_Cons notify_def replicate_append_same)
    next
      case nf: False
      show ?thesis
        using Cons.IH [OF Cons.prems] False nf
        by (simp add: install_rule_eq rule_hooks_Cons)
    qed
  qed
qed


text \<open>
  \<open>addRuleListeners\<close> on a list of entries, in any state whose closures are numbered below
  \<open>next_closure\<close>.
\<close>

lemma addRuleListeners_Some:
  assumes "closures_fresh st"
  shows "addRuleListeners cr cmp acc (Some rs) st =
     (if acc ([ALL_URLS], None) [''blocking''] then
        (None,
         st\<lparr>onBeforeRequest :=
              onBeforeRequest st @ rule_hooks cr cmp acc (next_closure st) rs
                @ (if RequestControlListener \<in> fst ` set (onBeforeRequest st) then []
                   else [catch_all]),
            requestListeners :=
              requestListeners st @ map fst (rule_hooks cr cmp acc (next_closure st) rs),
            next_closure := next_closure st + length (filter (installs cr cmp acc) rs),
            notifier_log :=
              notifier_log st
                @ replicate (length (filter (reported cr cmp acc) rs))
                    (Error None ''error_invalid_rule'')\<rparr>)
      else
        (Some (Thrown ''addListener''),
         st\<lparr>onBeforeRequest := onBeforeRequest st @ rule_hooks cr cmp acc (next_closure st) rs,
            requestListeners :=
              requestListeners st @ map fst (rule_hooks cr cmp acc (next_closure st) rs),
            next_closure := next_closure st + length (filter (installs cr cmp acc) rs),
            notifier_log :=
              notifier_log st
                @ replicate (length (filter (reported cr cmp acc) rs))
                    (Error None ''error_invalid_rule'')\<rparr>))"
proof -
  have "addListener catch_all (onBeforeRequest st @ rule_hooks cr cmp acc (next_closure st) rs)
      = onBeforeRequest st @ rule_hooks cr cmp acc (next_closure st) rs
          @ (if RequestControlListener \<in> fst ` set (onBeforeRequest st) then [] else [catch_all])"
    using rule_hooks_not_catch_all [of cr cmp acc "next_closure st" rs]
    by (auto simp: addListener_def catch_all_def image_Un)
  then show ?thesis
    by (simp add: addRuleListeners_def install_rules_eq [OF assms] catch_all_def Let_def)
qed

















lemma init_absent_rules:
  "init cr cmp acc absent_rules st =
     (None,
      st\<lparr>notifier_log := notifier_log st @ [EnabledState], onRemoved := True,
         onCommitted := True, onMessage := True,
         handlerBehaviorChanged := Suc (handlerBehaviorChanged st)\<rparr>)"
  by (simp add: init_def absent_rules_def addRuleListeners_def notify_def)

text \<open>\<open>init\<close> on options that enable the script and have rules, the host taking the catch-all.\<close>

lemma init_enabled:
  assumes "\<not> disabled opts" and "rules opts = Some rs" and "closures_fresh st"
    and "acc ([ALL_URLS], None) [''blocking'']"
  shows "init cr cmp acc opts st =
     (None,
      st\<lparr>onBeforeRequest :=
           onBeforeRequest st @ rule_hooks cr cmp acc (next_closure st) rs
             @ (if RequestControlListener \<in> fst ` set (onBeforeRequest st) then []
                else [catch_all]),
         requestListeners :=
           requestListeners st @ map fst (rule_hooks cr cmp acc (next_closure st) rs),
         next_closure := next_closure st + length (filter (installs cr cmp acc) rs),
         notifier_log :=
           notifier_log st @ EnabledState
             # replicate (length (filter (reported cr cmp acc) rs))
                 (Error None ''error_invalid_rule''),
         onRemoved := True, onCommitted := True, onMessage := True,
         handlerBehaviorChanged := Suc (handlerBehaviorChanged st)\<rparr>)"
proof -
  have "closures_fresh (notify EnabledState st)"
    using assms(3) by (auto simp: closures_fresh_def notify_def split: listener.splits)
  from addRuleListeners_Some [OF this, of cr cmp acc rs] assms(1,2,4) show ?thesis
    by (simp add: init_def notify_def)
qed

section \<open>The example runs\<close>

lemma ex_filters:
  "filter (installs ex_createRule ex_createMatchPatterns ex_accepts) ex_rules
     = [mk_rule True ''*://a.example/*'' ''r1'', mk_rule True ''*://e.example/*'' ''r5'']"
  "length (filter (reported ex_createRule ex_createMatchPatterns ex_accepts) ex_rules) = 3"
  "length (filter (compiles ex_createRule ex_createMatchPatterns) ex_rules) = 3"
  "ex_accepts ([ALL_URLS], None) [''blocking'']"
  by (simp_all add: ex_rules_def installs_def reported_def compiles_def ex_createRule_def
      ex_createMatchPatterns_def ex_accepts_def mk_rule_def)

lemma ex_rule_hooks:
  "rule_hooks ex_createRule ex_createMatchPatterns ex_accepts n ex_rules
     = [(RuleListener n (Rule ''r1''), ([''*://a.example/*''], None), []),
        (RuleListener (Suc n) (Rule ''r5''), ([''*://e.example/*''], None), [])]"
  unfolding rule_hooks_def ex_filters
  by (simp add: ex_createRule_def ex_createMatchPatterns_def mk_rule_def)

lemma ex_startup:
  "startup ex_createRule ex_createMatchPatterns ex_accepts ex_enabled =
     initial_state
       \<lparr>onBeforeRequest :=
          rule_hooks ex_createRule ex_createMatchPatterns ex_accepts 0 ex_rules @ [catch_all],
        requestListeners :=
          map fst (rule_hooks ex_createRule ex_createMatchPatterns ex_accepts 0 ex_rules),
        next_closure := 2,
        notifier_log := [EnabledState, Error None ''error_invalid_rule'',
                         Error None ''error_invalid_rule'', Error None ''error_invalid_rule''],
        onRemoved := True, onCommitted := True, onMessage := True,
        handlerBehaviorChanged := 1, onChanged := True\<rparr>"
proof -
  have f: "closures_fresh initial_state"
    by (simp add: closures_fresh_def initial_state_def)
  have e: "\<not> disabled ex_enabled" "rules ex_enabled = Some ex_rules"
    by (simp_all add: ex_enabled_def)
  show ?thesis
    unfolding startup_def init_enabled [where acc = ex_accepts, OF e f ex_filters(4)] ex_filters
    by (simp add: initial_state_def numeral_2_eq_2 numeral_3_eq_3)
qed

lemma step_Resolved:
  "RequestControlListener \<in> fst ` set (onBeforeRequest st) \<Longrightarrow>
   step cr cmp acc st (Resolved r u) =
     st\<lparr>records := (records st)(tabId r \<mapsto> tab_records st (tabId r) @ [r]),
        notifier_log :=
          notifier_log st @ [Notify (tabId r) (rule r) (Suc (length (tab_records st (tabId r))))]\<rparr>"
  by (simp add: step_def onResolved_def addRecord_eq notify_def)

lemma step_Committed:
  assumes "onCommitted st" and "d_frameId dt = 0" and "records st (d_tabId dt) = Some tabRecords"
    and "reconcile (d_url dt) (''server_redirect'' \<in> set (transitionQualifiers dt)) tabRecords
         = Inr keep"
  shows "step cr cmp acc st (Committed dt) =
     (if keep \<noteq> [] then
        notify (Notify (d_tabId dt) (rule (last keep)) (length keep))
          (st\<lparr>records := (records st)(d_tabId dt \<mapsto> keep)\<rparr>)
      else notify (Clear (d_tabId dt)) (removeRecords (d_tabId dt) st))"
  using assms(1) by (simp add: step_def resetRecords_keep [OF assms(2-4)])

lemma ex_twice_records:
  "records (run ex_createRule ex_createMatchPatterns ex_accepts ex_enabled ex_twice) 1
     = Some [mk_record ''A'' None 10, mk_record ''A'' None 10]"
  by (simp add: run_def ex_twice_def ex_startup step_Resolved catch_all_def tab_records_def
      initial_state_def mk_record_def)

lemma ex_events_run:
  "fresh_events ex_createRule ex_createMatchPatterns ex_accepts
     (startup ex_createRule ex_createMatchPatterns ex_accepts ex_enabled) ex_events \<and>
   records (run ex_createRule ex_createMatchPatterns ex_accepts ex_enabled ex_events) 1
     = Some [mk_record ''S1'' None 30] \<and>
   RequestControlListener
     \<in> fst ` set (onBeforeRequest
                    (run ex_createRule ex_createMatchPatterns ex_accepts ex_enabled ex_events))"
proof -
  let ?step = "step ex_createRule ex_createMatchPatterns ex_accepts"
  let ?start = "startup ex_createRule ex_createMatchPatterns ex_accepts ex_enabled"
  let ?ra = "mk_record ''A'' (Some ''B'') 10"
  let ?rb = "mk_record ''B'' (Some ''C'') 20"
  let ?rs = "mk_record ''S1'' None 30"
  define s1 where "s1 = ?step ?start (Resolved ?ra False)"
  define s2 where "s2 = ?step s1 (Resolved ?rb False)"
  define s3 where "s3 = ?step s2 (Committed (commit ''C'' []))"
  define s4 where "s4 = ?step s3 (Resolved ?rs False)"
  define s5 where "s5 = ?step s4 (TabRemoved 1)"
  define s6 where "s6 = ?step s5 (Resolved ?rs False)"
  have t [simp]: "tabId (mk_record u t ts) = 1" for u t ts
    by (simp add: mk_record_def)
  have h0: "RequestControlListener \<in> fst ` set (onBeforeRequest ?start)" "onCommitted ?start"
    "onRemoved ?start" "records ?start = Map.empty"
    by (simp_all add: ex_startup catch_all_def initial_state_def)
  have h1: "RequestControlListener \<in> fst ` set (onBeforeRequest s1)" "onCommitted s1"
    "onRemoved s1" "records s1 = [1 \<mapsto> [?ra]]"
    unfolding s1_def using h0 by (simp_all add: step_Resolved tab_records_def)
  have h2: "RequestControlListener \<in> fst ` set (onBeforeRequest s2)" "onCommitted s2"
    "onRemoved s2" "records s2 = [1 \<mapsto> [?ra, ?rb]]"
    unfolding s2_def using h1 by (simp_all add: step_Resolved tab_records_def)
  have rc: "reconcile ''C'' False [?ra, ?rb] = Inr [?ra, ?rb]"
    by code_simp
  have c: "s3 = notify (Notify 1 (rule ?rb) 2) (s2\<lparr>records := (records s2)(1 \<mapsto> [?ra, ?rb])\<rparr>)"
    unfolding s3_def
    using step_Committed [of s2 "commit ''C'' []" "[?ra, ?rb]" "[?ra, ?rb]"] h2 rc
    by (simp add: commit_def numeral_2_eq_2)
  have h3: "RequestControlListener \<in> fst ` set (onBeforeRequest s3)" "onCommitted s3"
    "onRemoved s3" "records s3 = [1 \<mapsto> [?ra, ?rb]]"
    unfolding c using h2 by (simp_all add: notify_def)
  have h4: "RequestControlListener \<in> fst ` set (onBeforeRequest s4)" "onCommitted s4"
    "onRemoved s4" "records s4 = [1 \<mapsto> [?ra, ?rb, ?rs]]"
    unfolding s4_def using h3 by (simp_all add: step_Resolved tab_records_def)
  have h5: "RequestControlListener \<in> fst ` set (onBeforeRequest s5)" "onCommitted s5"
    "onRemoved s5" "records s5 = Map.empty"
    unfolding s5_def using h4 by (simp_all add: step_def removeRecords_def)
  have h6: "records s6 = [1 \<mapsto> [?rs]]" "RequestControlListener \<in> fst ` set (onBeforeRequest s6)"
    unfolding s6_def using h5 by (simp_all add: step_Resolved tab_records_def)
  have f: "fresh_event ?start (Resolved ?ra False)" "fresh_event s1 (Resolved ?rb False)"
    "fresh_event s2 (Committed (commit ''C'' []))" "fresh_event s3 (Resolved ?rs False)"
    "fresh_event s4 (TabRemoved 1)" "fresh_event s5 (Resolved ?rs False)"
    using h0 h1 h2 h3 h4 h5
    by (simp_all add: fresh_event_def tab_records_def) (simp_all add: mk_record_def record_key_def)
  have "fresh_events ex_createRule ex_createMatchPatterns ex_accepts ?start ex_events"
    unfolding ex_events_def using f
    by (simp add: s1_def [symmetric] s2_def [symmetric] s3_def [symmetric] s4_def [symmetric]
        s5_def [symmetric])
  moreover have "run ex_createRule ex_createMatchPatterns ex_accepts ex_enabled ex_events = s6"
    by (simp add: run_def ex_events_def s1_def s2_def s3_def s4_def s5_def s6_def)
  ultimately show ?thesis
    using h6 by simp
qed


section \<open>Between a change of the options and the answer to its read\<close>



section \<open>Claims about the hooks\<close>

text \<open>
  C5. The registration of a per-rule hook is inside the \<open>try\<close> block too: an entry on which
  \<open>createRule\<close> and \<open>createMatchPatterns\<close> return but whose filter the host refuses gets no
  hook and is reported like an entry that does not compile. On \<open>ex_rules\<close> three active
  entries compile, two per-rule hooks are registered and three errors are reported.
\<close>

theorem C5_refused_filter_counterexample:
  "length (filter (compiles ex_createRule ex_createMatchPatterns) ex_rules) = 3 \<and>
   onBeforeRequest
     (snd (addRuleListeners ex_createRule ex_createMatchPatterns ex_accepts (Some ex_rules)
             initial_state))
     = [(RuleListener 0 (Rule ''r1''), ([''*://a.example/*''], None), []),
        (RuleListener 1 (Rule ''r5''), ([''*://e.example/*''], None), []),
        (RequestControlListener, ([''<all_urls>''], None), [''blocking''])] \<and>
   length (filter (\<lambda>h. fst h \<noteq> RequestControlListener)
             (onBeforeRequest
                (snd (addRuleListeners ex_createRule ex_createMatchPatterns ex_accepts
                        (Some ex_rules) initial_state))))
     \<noteq> length (filter (compiles ex_createRule ex_createMatchPatterns) ex_rules)"
proof -
  have f: "closures_fresh initial_state"
    by (simp add: closures_fresh_def initial_state_def)
  have "onBeforeRequest
     (snd (addRuleListeners ex_createRule ex_createMatchPatterns ex_accepts (Some ex_rules)
             initial_state))
     = [(RuleListener 0 (Rule ''r1''), ([''*://a.example/*''], None), []),
        (RuleListener 1 (Rule ''r5''), ([''*://e.example/*''], None), []),
        (RequestControlListener, ([''<all_urls>''], None), [''blocking''])]"
    unfolding addRuleListeners_Some [OF f]
    using ex_filters(4)
    by (simp add: ex_rule_hooks initial_state_def catch_all_def ALL_URLS_def)
  then show ?thesis
    by (simp add: ex_filters(3))
qed

text \<open>
  C5, amended. \<open>addRuleListeners\<close> on a list of entries, in a state whose registered closures
  are numbered below \<open>next_closure\<close> (every state the script reaches is one, lemma
  \<open>invariants_run\<close>). It registers, behind the hooks there are, one per-rule hook for every
  active entry on which neither \<open>createRule\<close> nor \<open>createMatchPatterns\<close> nor the host's
  \<open>addListener\<close> throws, in the order of the entries; so the number of per-rule hooks it
  registers is the number of such entries, and it is the number of entries that compile when
  the host takes the filter of each of them. An active entry on which one of the three throws
  gets no hook and one call of the notifier's \<open>error\<close>, and the entries after it are handled
  all the same. When the host takes the registration of the catch-all hook, the function
  returns and that hook (every URL, blocking) is registered, behind the per-rule hooks unless
  it was registered before.
\<close>

theorem C5_skipped_rules_reported:
  assumes "closures_fresh st"
  shows "filter (\<lambda>h. fst h \<noteq> RequestControlListener)
         (onBeforeRequest (snd (addRuleListeners cr cmp acc (Some rs) st)))
       = filter (\<lambda>h. fst h \<noteq> RequestControlListener) (onBeforeRequest st)
           @ rule_hooks cr cmp acc (next_closure st) rs \<and>
     length (rule_hooks cr cmp acc (next_closure st) rs)
       = length (filter (installs cr cmp acc) rs) \<and>
     ((\<forall>d\<in>set rs. compiles cr cmp d \<longrightarrow> acc (projr (cmp (pattern d)), types d) []) \<longrightarrow>
        length (rule_hooks cr cmp acc (next_closure st) rs)
          = length (filter (compiles cr cmp) rs)) \<and>
     requestListeners (snd (addRuleListeners cr cmp acc (Some rs) st))
       = requestListeners st @ map fst (rule_hooks cr cmp acc (next_closure st) rs) \<and>
     notifier_log (snd (addRuleListeners cr cmp acc (Some rs) st))
       = notifier_log st
           @ replicate (length (filter (reported cr cmp acc) rs))
               (Error None ''error_invalid_rule'') \<and>
     (acc ([ALL_URLS], None) [''blocking''] \<longrightarrow>
        fst (addRuleListeners cr cmp acc (Some rs) st) = None \<and>
        onBeforeRequest (snd (addRuleListeners cr cmp acc (Some rs) st))
          = onBeforeRequest st @ rule_hooks cr cmp acc (next_closure st) rs
              @ (if RequestControlListener \<in> fst ` set (onBeforeRequest st) then []
                 else [catch_all]) \<and>
        RequestControlListener
          \<in> fst ` set (onBeforeRequest (snd (addRuleListeners cr cmp acc (Some rs) st))))"
proof -
  have nc: "filter (\<lambda>h. fst h \<noteq> RequestControlListener) (rule_hooks cr cmp acc n rs)
            = rule_hooks cr cmp acc n rs" for n
    using rule_hooks_not_catch_all [of cr cmp acc n rs] by (force simp: filter_id_conv)
  have a: "filter (\<lambda>h. fst h \<noteq> RequestControlListener)
         (onBeforeRequest (snd (addRuleListeners cr cmp acc (Some rs) st)))
       = filter (\<lambda>h. fst h \<noteq> RequestControlListener) (onBeforeRequest st)
           @ rule_hooks cr cmp acc (next_closure st) rs"
    unfolding addRuleListeners_Some [OF assms] by (simp add: nc catch_all_def)
  have b: "length (rule_hooks cr cmp acc (next_closure st) rs)
          = length (filter (compiles cr cmp) rs)"
    if "\<forall>d\<in>set rs. compiles cr cmp d \<longrightarrow> acc (projr (cmp (pattern d)), types d) []"
  proof -
    from that have "filter (installs cr cmp acc) rs = filter (compiles cr cmp) rs"
      by (auto simp: installs_def intro: filter_cong)
    then show ?thesis by (simp add: rule_hooks_length)
  qed
  have c: "requestListeners (snd (addRuleListeners cr cmp acc (Some rs) st))
       = requestListeners st @ map fst (rule_hooks cr cmp acc (next_closure st) rs)"
    "notifier_log (snd (addRuleListeners cr cmp acc (Some rs) st))
       = notifier_log st
           @ replicate (length (filter (reported cr cmp acc) rs))
               (Error None ''error_invalid_rule'')"
    unfolding addRuleListeners_Some [OF assms] by simp_all
  have d: "fst (addRuleListeners cr cmp acc (Some rs) st) = None \<and>
        onBeforeRequest (snd (addRuleListeners cr cmp acc (Some rs) st))
          = onBeforeRequest st @ rule_hooks cr cmp acc (next_closure st) rs
              @ (if RequestControlListener \<in> fst ` set (onBeforeRequest st) then []
                 else [catch_all]) \<and>
        RequestControlListener
          \<in> fst ` set (onBeforeRequest (snd (addRuleListeners cr cmp acc (Some rs) st)))"
    if "acc ([ALL_URLS], None) [''blocking'']"
    unfolding addRuleListeners_Some [OF assms] using that
    by (auto simp: catch_all_def image_Un)
  from a b c d rule_hooks_length [of cr cmp acc "next_closure st" rs] show ?thesis
    by blast
qed

theorem C5_skipped_rules_reported_witness:
  "closures_fresh initial_state \<and>
   ex_accepts ([ALL_URLS], None) [''blocking''] \<and>
   fst (addRuleListeners ex_createRule ex_createMatchPatterns ex_accepts (Some ex_rules)
          initial_state) = None \<and>
   onBeforeRequest
     (snd (addRuleListeners ex_createRule ex_createMatchPatterns ex_accepts (Some ex_rules)
             initial_state))
     = [(RuleListener 0 (Rule ''r1''), ([''*://a.example/*''], None), []),
        (RuleListener 1 (Rule ''r5''), ([''*://e.example/*''], None), []),
        (RequestControlListener, ([''<all_urls>''], None), [''blocking''])] \<and>
   length (filter (installs ex_createRule ex_createMatchPatterns ex_accepts) ex_rules) = 2 \<and>
   notifier_log
     (snd (addRuleListeners ex_createRule ex_createMatchPatterns ex_accepts (Some ex_rules)
             initial_state))
     = [Error None ''error_invalid_rule'', Error None ''error_invalid_rule'',
        Error None ''error_invalid_rule''] \<and>
   length (rule_hooks ex_createRule ex_createMatchPatterns ex_accepts 0 (take 5 ex_rules))
     = length (filter (compiles ex_createRule ex_createMatchPatterns) (take 5 ex_rules)) \<and>
   length (filter (compiles ex_createRule ex_createMatchPatterns) (take 5 ex_rules)) = 2"
proof -
  have f: "closures_fresh initial_state"
    by (simp add: closures_fresh_def initial_state_def)
  have i: "onBeforeRequest initial_state = []" "next_closure initial_state = 0"
    "notifier_log initial_state = []"
    by (simp_all add: initial_state_def)
  have t: "\<forall>d\<in>set (take 5 ex_rules).
             compiles ex_createRule ex_createMatchPatterns d \<longrightarrow>
             ex_accepts (projr (ex_createMatchPatterns (pattern d)), types d) []"
    by (simp add: ex_rules_def ex_accepts_def mk_rule_def)
  have t2: "length (filter (compiles ex_createRule ex_createMatchPatterns) (take 5 ex_rules)) = 2"
    by (simp add: ex_rules_def compiles_def ex_createRule_def ex_createMatchPatterns_def
        mk_rule_def)
  from C5_skipped_rules_reported [OF f, of ex_createRule ex_createMatchPatterns ex_accepts
      "take 5 ex_rules"] t
  have t3: "length (rule_hooks ex_createRule ex_createMatchPatterns ex_accepts 0 (take 5 ex_rules))
     = length (filter (compiles ex_createRule ex_createMatchPatterns) (take 5 ex_rules))"
    unfolding i by blast
  from C5_skipped_rules_reported [OF f, of ex_createRule ex_createMatchPatterns ex_accepts
      ex_rules] ex_filters(4)
  have "fst (addRuleListeners ex_createRule ex_createMatchPatterns ex_accepts (Some ex_rules)
          initial_state) = None"
    "onBeforeRequest
       (snd (addRuleListeners ex_createRule ex_createMatchPatterns ex_accepts (Some ex_rules)
             initial_state))
     = onBeforeRequest initial_state
         @ rule_hooks ex_createRule ex_createMatchPatterns ex_accepts
             (next_closure initial_state) ex_rules
         @ (if RequestControlListener \<in> fst ` set (onBeforeRequest initial_state) then []
            else [catch_all])"
    "notifier_log
       (snd (addRuleListeners ex_createRule ex_createMatchPatterns ex_accepts (Some ex_rules)
             initial_state))
     = notifier_log initial_state
         @ replicate
             (length (filter (reported ex_createRule ex_createMatchPatterns ex_accepts) ex_rules))
             (Error None ''error_invalid_rule'')"
    by blast+
  then show ?thesis
    unfolding i ex_filters ex_rule_hooks using f ex_filters(4) t2 t3
    by (simp add: catch_all_def ALL_URLS_def numeral_3_eq_3)
qed

text \<open>The listener for changes of the options, once registered, stays registered.\<close>

lemma onChanged_install_rule [simp]: "onChanged (install_rule cr cmp acc d st) = onChanged st"
  by (simp add: install_rule_eq notify_def)

lemma onChanged_install_rules [simp]: "onChanged (install_rules cr cmp acc rs st) = onChanged st"
  by (induction rs arbitrary: st) simp_all

lemma onChanged_init [simp]: "onChanged (snd (init cr cmp acc opts st)) = onChanged st"
  by (cases "addRuleListeners cr cmp acc (rules opts) (notify EnabledState st)")
     (auto simp: init_def Let_def notify_def addRuleListeners_def split: option.splits if_splits)






text \<open>
  C9. When \<open>options.rules\<close> is absent, \<open>addRuleListeners\<close> returns at once and changes
  nothing, the catch-all hook is not registered either. So \<open>init\<close> on such options tells the
  notifier the enabled state and registers no hook, in any state. After the script's start on
  such options the notifier has been told the enabled state and no hook is registered; no
  request reaches the resolution callback, so a resolution changes nothing.
\<close>

theorem C9_absent_rules_no_hooks:
  "addRuleListeners cr cmp acc None st = (None, st) \<and>
   onBeforeRequest (startup cr cmp acc absent_rules) = [] \<and>
   notifier_log (startup cr cmp acc absent_rules) = [EnabledState] \<and>
   step cr cmp acc (startup cr cmp acc absent_rules) (Resolved r updateTab)
     = startup cr cmp acc absent_rules \<and>
   onBeforeRequest (snd (init cr cmp acc absent_rules st)) = onBeforeRequest st \<and>
   notifier_log (snd (init cr cmp acc absent_rules st)) = notifier_log st @ [EnabledState]"
proof -
  have a: "addRuleListeners cr cmp acc None st = (None, st)"
    by (simp add: addRuleListeners_def)
  have b: "onBeforeRequest (startup cr cmp acc absent_rules) = []"
    "notifier_log (startup cr cmp acc absent_rules) = [EnabledState]"
    by (simp_all add: startup_def init_absent_rules initial_state_def)
  have e: "step cr cmp acc s (Resolved r updateTab) = s" if "onBeforeRequest s = []" for s
    using that by (simp add: step_def)
  have c: "onBeforeRequest (snd (init cr cmp acc absent_rules st)) = onBeforeRequest st"
    "notifier_log (snd (init cr cmp acc absent_rules st)) = notifier_log st @ [EnabledState]"
    by (simp_all add: init_absent_rules)
  from a b e [OF b(1)] c show ?thesis
    by simp
qed

section \<open>The store across events\<close>

text \<open>
  C7. Nothing in the store looks for duplicates: \<open>addRecord\<close> pushes whatever it is given.
  Two resolutions with the same URL, target and time stamp in one tab leave the tab with two
  records of the same triple.
\<close>

theorem C7_duplicate_counterexample:
  "records (run ex_createRule ex_createMatchPatterns ex_accepts ex_enabled ex_twice) 1
     = Some [mk_record ''A'' None 10, mk_record ''A'' None 10] \<and>
   \<not> distinct (map record_key [mk_record ''A'' None 10, mk_record ''A'' None 10]) \<and>
   \<not> no_duplicates (run ex_createRule ex_createMatchPatterns ex_accepts ex_enabled ex_twice)"
proof -
  have d: "\<not> distinct (map record_key [mk_record ''A'' None 10, mk_record ''A'' None 10])"
    by simp
  with ex_twice_records
  have "\<not> no_duplicates (run ex_createRule ex_createMatchPatterns ex_accepts ex_enabled ex_twice)"
    unfolding no_duplicates_def by blast
  with ex_twice_records d show ?thesis by blast
qed

text \<open>
  C7, amended. When every resolved request differs in (url, target, timestamp) from the
  records its tab holds at that moment, no sequence of any state the script reaches holds
  two records with the same triple: reconciliation keeps a subsequence, removal and a
  disabling change of the options delete.
\<close>

theorem C7_no_duplicates_when_fresh:
  assumes "fresh_events cr cmp acc (startup cr cmp acc opts) evs"
  shows "no_duplicates (run cr cmp acc opts evs)"
proof -
  have "no_duplicates (startup cr cmp acc opts)"
    by (simp add: no_duplicates_def records_startup)
  from no_duplicates_foldl [OF this assms] show ?thesis
    by (simp add: run_def)
qed

theorem C7_no_duplicates_when_fresh_witness:
  "fresh_events ex_createRule ex_createMatchPatterns ex_accepts
     (startup ex_createRule ex_createMatchPatterns ex_accepts ex_enabled) ex_events \<and>
   records (run ex_createRule ex_createMatchPatterns ex_accepts ex_enabled ex_events) 1
     = Some [mk_record ''S1'' None 30] \<and>
   no_duplicates (run ex_createRule ex_createMatchPatterns ex_accepts ex_enabled ex_events)"
  using C7_no_duplicates_when_fresh [of ex_createRule ex_createMatchPatterns ex_accepts
      ex_enabled ex_events] ex_events_run
  by simp

end
